theory Spec2Isabelle
  imports Main "HOL-Library.AList"
begin

section \<open>Data model\<close>

text \<open>
  The model follows \<open>src/class/ResClient.js\<close>. The classes \<open>CacheItem\<close>, \<open>ResModel\<close>,
  \<open>ResCollection\<close>, \<open>ResError\<close> and \<open>TypeList\<close> that it imports are modelled from the
  specification where the client calls them; each such definition says so.
\<close>

text \<open>The resource types \<open>typeModel\<close>, \<open>typeCollection\<close> and \<open>typeError\<close>.\<close>

datatype restype = typeModel | typeCollection | typeError

text \<open>
  Values as they arrive in JSON: a primitive, or an object, of which the client reads the
  properties \<open>action\<close> and \<open>rid\<close> only (\<open>None\<close> for a property that is absent; an
  array is an object with neither). Numbers are integers here: the client never computes
  with a value of a resource.
\<close>

datatype prim = PNull | PBool bool | PNum int | PStr string

datatype jval = JPrim prim | JObj "string option" "string option"

text \<open>
  Values as a resource object holds them: a primitive, a JSON object passed through, or
  another resource object. \<open>VRes a r\<close> is the resource object that belongs to the cache
  item at address \<open>a\<close>; \<open>r\<close> is what its \<open>getResourceId()\<close> returns.
\<close>

datatype val = VPrim prim | VObj "string option" "string option" | VRes nat string

text \<open>
  The content of a resource object: the properties of a model in the order \<open>for ... in\<close>
  enumerates them, the elements of a collection, the data of an error.
\<close>

datatype item = ModelItem "(string \<times> val) list" | CollectionItem "val list" | ErrorItem "jval option"

text \<open>
  A \<open>CacheItem\<close> object. \<open>item\<close> is \<open>None\<close> while the source's \<open>ci.item\<close> is null; the
  content of the resource object is kept with the item that owns it.
\<close>

record CacheItem =
  rid :: string
  ci_type :: "restype option"
  item :: "item option"
  direct :: int
  indirect :: int
  subscribed :: bool
  promise :: "nat option"

text \<open>Exceptions: a \<open>TypeError\<close> of the runtime, or \<open>throw new Error(message)\<close>.\<close>

datatype error = TypeError | Error string

text \<open>
  A bundle of resources (\<open>resources.models\<close>, \<open>resources.collections\<close>,
  \<open>resources.errors\<close>, each absent or an object keyed by RID), and the data of an event:
  \<open>data.values\<close>, \<open>data.value\<close>, \<open>data.idx\<close> and the bundle that comes with them. An
  absent \<open>values\<close> is the empty object (\<open>for ... in\<close> over \<open>undefined\<close> runs no
  iteration), an absent \<open>value\<close> is not told apart from \<open>null\<close>, and \<open>idx\<close> is a
  natural number.
\<close>

record resources =
  models :: "(string \<times> (string \<times> jval) list) list option"
  collections :: "(string \<times> jval list) list option"
  errors :: "(string \<times> jval) list option"

record payload =
  ev_values :: "(string \<times> jval) list"
  ev_value :: jval
  ev_idx :: nat
  ev_res :: resources

text \<open>What \<open>setTimeout\<close> was asked to run, and what \<open>eventBus.emit\<close> was called with.\<close>

datatype timer = SubscribeToStale string | Reconnect

datatype edata =
    DRaw "payload option"
  | DChanged "(string \<times> val option) list"
  | DItemIdx "val option" nat
  | DItem val
  | DError string
  | DNone

datatype emit = EmitClient string edata | EmitResource val string edata

text \<open>
  A stored request: its method, its parameters, what the promise of \<open>_sendNow\<close> is
  chained to, the number of the call of \<open>_send\<close> it serves, and whether its promise
  was settled already when it was stored (\<open>resolve\<close> and \<open>reject\<close> of a settled promise
  do nothing). \<open>KPlain\<close>: the promise goes to the caller (\<open>call\<close>, \<open>authenticate\<close>);
  \<open>KNew\<close>: the \<open>then\<close> of \<open>create\<close>; \<open>KSubscribe a throwError\<close>: the \<open>then\<close> and
  \<open>catch\<close> of \<open>_subscribe(ci, throwError)\<close> for the item at address \<open>a\<close>, followed for
  \<open>get\<close> by \<open>then(() => ci.item)\<close>; \<open>KUnsubscribe a\<close>: the \<open>then\<close> and \<open>catch\<close> of
  \<open>_unsubscribe(ci)\<close>.
\<close>

datatype cont = KPlain | KNew | KSubscribe nat bool | KUnsubscribe nat

record request =
  req_method :: string
  req_params :: "jval option"
  req_cont :: cont
  req_call :: nat
  req_done :: bool

text \<open>How a promise was settled.\<close>

datatype outcome = Resolved | ResolvedWith val | Rejected error | RejectedWith string

text \<open>
  The state of a \<open>ResClient\<close>. \<open>heap\<close> holds the \<open>CacheItem\<close> objects by address and
  \<open>nextAddr\<close> is the next address \<open>new CacheItem\<close> takes; \<open>cache\<close> is \<open>this.cache\<close>, RID to
  object, in the order of insertion; \<open>stale\<close> is \<open>this.stale\<close>, \<open>None\<close> for null;
  \<open>requests\<close> is \<open>this.requests\<close>; \<open>waiting\<close> holds the sends that \<open>_send\<close> chained to
  the connect promise, each with the number of its call (\<open>callId\<close> numbers the calls of
  \<open>_send\<close>), its method, parameters and continuation. The last fields record what the client did to its
  collaborators: the timers it set, the events it emitted, the frames it sent on the
  socket, the lines it wrote with \<open>console.error\<close>, the calls of \<open>resolve\<close> and \<open>reject\<close>
  of the promise of each request (\<open>settled\<close>, by request id) and how the promise returned
  to the caller ended (\<open>returned\<close>, by the number of the call).
\<close>

record client =
  heap :: "nat \<Rightarrow> CacheItem"
  nextAddr :: nat
  cache :: "(string \<times> nat) list"
  stale :: "string list option"
  connected :: bool
  tryConnect :: bool
  ws :: bool
  connectPromise :: bool
  connectCallback :: bool
  callId :: nat
  waiting :: "(nat \<times> string \<times> jval option \<times> cont) list"
  requests :: "(nat \<times> request) list"
  reqId :: nat
  namespace :: string
  timers :: "timer list"
  emitted :: "emit list"
  sent :: "(nat \<times> string \<times> jval option) list"
  console :: "string list"
  settled :: "(nat \<times> outcome) list"
  returned :: "(nat \<times> outcome) list"

text \<open>A call returns a value and the new state, or throws: the state is then as the
  call left it.\<close>

datatype 'a result = Ok 'a client | Throw error client

definition bind :: "'a result \<Rightarrow> ('a \<Rightarrow> client \<Rightarrow> 'b result) \<Rightarrow> 'b result" where
  "bind m f = (case m of Throw e s \<Rightarrow> Throw e s | Ok x s \<Rightarrow> f x s)"

section \<open>The reference-state engine\<close>

text \<open>The traverse states \<open>stateNone\<close>, \<open>stateDelete\<close>, \<open>stateKeep\<close> and \<open>stateStale\<close>.\<close>

definition stateNone :: nat where "stateNone = 0"
definition stateDelete :: nat where "stateDelete = 1"
definition stateKeep :: nat where "stateKeep = 2"
definition stateStale :: nat where "stateStale = 3"

text \<open>A \<open>RefState\<close> object \<open>{ ci, rc, st }\<close>; \<open>refs\<close> maps RIDs to them.\<close>

record RefState =
  ci :: nat
  rc :: int
  st :: nat

text \<open>
  The state that \<open>_traverse\<close> hands from a callback to the children: \<open>false\<close>, \<open>true\<close>,
  a number or a RID. The two callbacks \<open>_seekRefs.bind(this, refs)\<close> and
  \<open>_markDelete.bind(this, refs)\<close> are named by a constructor each.
\<close>

datatype tstate = SFalse | STrue | SNum nat | SStr string

datatype callback = SeekRefs | MarkDelete

text \<open>\<open>_isResource(v)\<close>, \<open>v.getResourceId()\<close> and \<open>_getRefItem(v)\<close>.\<close>

definition isResource :: "val \<Rightarrow> bool" where
  "isResource v = (case v of VRes a r \<Rightarrow> True | _ \<Rightarrow> False)"

definition getResourceId :: "val \<Rightarrow> string" where
  "getResourceId v = (case v of VRes a r \<Rightarrow> r | _ \<Rightarrow> [])"

definition getRefItem :: "client \<Rightarrow> val \<Rightarrow> nat option" where
  "getRefItem s v = (if \<not> isResource v then None else map_of (cache s) (getResourceId v))"

text \<open>
  The values \<open>_traverse\<close> and \<open>_deleteRef\<close> iterate over: the elements of a collection
  (\<open>for (let v of item)\<close>) or the own properties of a model (\<open>for (let k in item)\<close>);
  nothing for any other \<open>ci.type\<close>.
\<close>

definition children :: "CacheItem \<Rightarrow> val list" where
  "children c =
     (case ci_type c of
        Some typeCollection \<Rightarrow> (case item c of Some (CollectionItem vs) \<Rightarrow> vs | _ \<Rightarrow> [])
      | Some typeModel \<Rightarrow> (case item c of Some (ModelItem kvs) \<Rightarrow> map snd kvs | _ \<Rightarrow> [])
      | _ \<Rightarrow> [])"

text \<open>\<open>_seekRefs(refs, ci, state)\<close>: the new \<open>refs\<close> and the state returned.\<close>

definition seekRefs :: "client \<Rightarrow> (string \<times> RefState) list \<Rightarrow> nat \<Rightarrow> tstate \<Rightarrow>
    error + (string \<times> RefState) list \<times> tstate" where
  "seekRefs s refs a state =
     (if subscribed (heap s a) then Inr (refs, SFalse)
      else
        (case map_of refs (rid (heap s a)) of
           None \<Rightarrow>
             Inr (AList.update (rid (heap s a))
                    \<lparr>ci = a, rc = indirect (heap s a) - 1, st = stateNone\<rparr> refs, STrue)
         | Some r \<Rightarrow>
             Inr (AList.update (rid (heap s a)) (r\<lparr>rc := rc r - 1\<rparr>) refs, SFalse)))"

text \<open>
  \<open>_markDelete(refs, ci, state)\<close>. \<open>refs[rid]\<close> of a RID that \<open>refs\<close> does not hold is
  undefined, and reading \<open>r.st\<close> throws a TypeError. \<open>r.ci.direct\<close> is true when it is
  not 0.
\<close>

definition markDelete :: "client \<Rightarrow> (string \<times> RefState) list \<Rightarrow> nat \<Rightarrow> tstate \<Rightarrow>
    error + (string \<times> RefState) list \<times> tstate" where
  "markDelete s refs a state =
     (if subscribed (heap s a) then Inr (refs, SFalse)
      else
        (case map_of refs (rid (heap s a)) of
           None \<Rightarrow> Inl TypeError
         | Some r \<Rightarrow>
             if st r = stateKeep then Inr (refs, SFalse)
             else if state = SNum stateDelete then
               (if rc r > 0 then
                  Inr (AList.update (rid (heap s a)) (r\<lparr>st := stateKeep\<rparr>) refs,
                       SStr (rid (heap s a)))
                else if st r \<noteq> stateNone then Inr (refs, SFalse)
                else if direct (heap s (ci r)) \<noteq> 0 then
                  Inr (AList.update (rid (heap s a)) (r\<lparr>st := stateStale\<rparr>) refs,
                       SStr (rid (heap s a)))
                else
                  Inr (AList.update (rid (heap s a)) (r\<lparr>st := stateDelete\<rparr>) refs,
                       SNum stateDelete))
             else if SStr (rid (heap s a)) = state then Inr (refs, SFalse)
             else
               Inr (AList.update (rid (heap s a)) (r\<lparr>st := stateKeep\<rparr>) refs,
                    if rc r > 0 then SStr (rid (heap s a)) else state)))"

definition apply_cb :: "client \<Rightarrow> callback \<Rightarrow> (string \<times> RefState) list \<Rightarrow> nat \<Rightarrow> tstate \<Rightarrow>
    error + (string \<times> RefState) list \<times> tstate" where
  "apply_cb s cb refs a state =
     (case cb of SeekRefs \<Rightarrow> seekRefs s refs a state | MarkDelete \<Rightarrow> markDelete s refs a state)"

text \<open>
  \<open>_traverse(ci, cb, state, skipFirst)\<close>, with \<open>traverse_list\<close> for its loop over the
  values of the item.
\<close>

function traverse :: "client \<Rightarrow> callback \<Rightarrow> nat \<Rightarrow> tstate \<Rightarrow> bool \<Rightarrow> (string \<times> RefState) list \<Rightarrow>
    error + (string \<times> RefState) list"
  and traverse_list :: "client \<Rightarrow> callback \<Rightarrow> val list \<Rightarrow> tstate \<Rightarrow> (string \<times> RefState) list \<Rightarrow>
    error + (string \<times> RefState) list" where
  "traverse s cb a state skipFirst refs =
     (if skipFirst then traverse_list s cb (children (heap s a)) state refs
      else
        (case apply_cb s cb refs a state of
           Inl e \<Rightarrow> Inl e
         | Inr (refs', state') \<Rightarrow>
             if state' = SFalse then Inr refs'
             else traverse_list s cb (children (heap s a)) state' refs'))"
| "traverse_list s cb [] state refs = Inr refs"
| "traverse_list s cb (v # vs) state refs =
     (case getRefItem s v of
        None \<Rightarrow> traverse_list s cb vs state refs
      | Some a \<Rightarrow>
          (case traverse s cb a state False refs of
             Inl e \<Rightarrow> Inl e
           | Inr refs' \<Rightarrow> traverse_list s cb vs state refs'))"
  by pat_completeness auto

text \<open>
  Termination: each callback that lets the traversal descend lowers the weight of one
  cached RID (absent from \<open>refs\<close>, then \<open>stateNone\<close>, then \<open>stateDelete\<close> or \<open>stateStale\<close>,
  then \<open>stateKeep\<close>), and no callback raises a weight.
\<close>

definition weight :: "(string \<times> RefState) list \<Rightarrow> string \<Rightarrow> nat" where
  "weight refs k =
     (case map_of refs k of
        None \<Rightarrow> 3
      | Some r \<Rightarrow> if st r = stateKeep then 0 else if st r = stateNone then 2 else 1)"

definition potential :: "client \<Rightarrow> (string \<times> RefState) list \<Rightarrow> nat" where
  "potential s refs = sum_list (map (\<lambda>p. weight refs (rid (heap s (snd p)))) (cache s))"

lemma weight_update_le:
  "weight (AList.update k v refs) k \<le> weight refs k \<Longrightarrow>
   potential s (AList.update k v refs) \<le> potential s refs"
  unfolding potential_def
  by (rule sum_list_mono) (auto simp: weight_def update_conv')

lemma sum_list_map_less:
  fixes f g :: "'a \<Rightarrow> nat"
  shows "\<forall>x\<in>set xs. f x \<le> g x \<Longrightarrow> \<exists>x\<in>set xs. f x < g x \<Longrightarrow>
    sum_list (map f xs) < sum_list (map g xs)"
proof (induction xs)
  case Nil
  then show ?case by simp
next
  case (Cons x xs)
  have le: "sum_list (map f xs) \<le> sum_list (map g xs)"
    using Cons.prems(1) by (intro sum_list_mono) simp
  show ?case
  proof (cases "f x < g x")
    case True
    with le show ?thesis by simp
  next
    case False
    then have "\<exists>y\<in>set xs. f y < g y" using Cons.prems(2) by auto
    with Cons have "sum_list (map f xs) < sum_list (map g xs)" by simp
    moreover have "f x \<le> g x" using Cons.prems(1) by simp
    ultimately show ?thesis by simp
  qed
qed

lemma weight_update_less:
  "weight (AList.update (rid (heap s a)) v refs) (rid (heap s a)) < weight refs (rid (heap s a)) \<Longrightarrow>
   a \<in> snd ` set (cache s) \<Longrightarrow>
   potential s (AList.update (rid (heap s a)) v refs) < potential s refs"
  unfolding potential_def
  by (rule sum_list_map_less) (auto simp: weight_def update_conv' split: option.splits)

lemma apply_cb_potential:
  "apply_cb s cb refs a state = Inr (refs', state') \<Longrightarrow>
   potential s refs' \<le> potential s refs \<and>
   (state' \<noteq> SFalse \<longrightarrow> a \<in> snd ` set (cache s) \<longrightarrow> potential s refs' < potential s refs)"
  unfolding apply_cb_def seekRefs_def markDelete_def
  by (auto split: callback.splits option.splits if_splits
      intro!: weight_update_le weight_update_less
      simp: weight_def update_conv' stateNone_def stateKeep_def stateStale_def stateDelete_def)


lemma traverse_potential_dom:
  "traverse_traverse_list_dom (Inl (s, cb, a, state, skipFirst, refs)) \<Longrightarrow>
     traverse s cb a state skipFirst refs = Inr refs' \<Longrightarrow> potential s refs' \<le> potential s refs"
  "traverse_traverse_list_dom (Inr (s, cb, vs, state, refs)) \<Longrightarrow>
     traverse_list s cb vs state refs = Inr refs' \<Longrightarrow> potential s refs' \<le> potential s refs"
proof (induct s cb a state skipFirst refs and s cb vs state refs arbitrary: refs' and refs'
    rule: traverse_traverse_list.pinduct)
  case (1 s cb a state skipFirst refs)
  show ?case
  proof (cases skipFirst)
    case True
    with 1 show ?thesis by (simp add: traverse.psimps)
  next
    case False
    with "1.prems" "1.hyps"(1) obtain refs1 state1 where
      cb: "apply_cb s cb refs a state = Inr (refs1, state1)"
      by (auto simp: traverse.psimps split: sum.splits)
    show ?thesis
    proof (cases "state1 = SFalse")
      case True
      with False cb "1.prems" "1.hyps"(1) apply_cb_potential[OF cb] show ?thesis
        by (simp add: traverse.psimps)
    next
      case ns: False
      with False cb "1.prems" "1.hyps"(1) have
        "traverse_list s cb (children (heap s a)) state1 refs1 = Inr refs'"
        by (simp add: traverse.psimps)
      from "1.hyps"(3)[OF False cb refl ns this] apply_cb_potential[OF cb]
      show ?thesis by simp
    qed
  qed
next
  case (2 s cb state refs)
  then show ?case by (simp add: traverse_list.psimps)
next
  case (3 s cb v vs state refs)
  show ?case
  proof (cases "getRefItem s v")
    case None
    with 3 show ?thesis by (simp add: traverse_list.psimps)
  next
    case (Some a)
    with "3.prems" "3.hyps"(1) obtain refs1 where
      t: "traverse s cb a state False refs = Inr refs1"
      by (auto simp: traverse_list.psimps split: sum.splits)
    with Some "3.prems" "3.hyps"(1) have
      "traverse_list s cb vs state refs1 = Inr refs'"
      by (simp add: traverse_list.psimps)
    from "3.hyps"(4)[OF Some t this] "3.hyps"(3)[OF Some t]
    show ?thesis by simp
  qed
qed


lemma getRefItem_in_cache: "getRefItem s v = Some a \<Longrightarrow> a \<in> snd ` set (cache s)"
  by (auto simp: getRefItem_def split: if_splits dest!: map_of_SomeD intro: rev_image_eqI)

termination traverse
proof (relation "measures
    [\<lambda>x. case x of Inl (s, cb, a, state, skipFirst, refs) \<Rightarrow> potential s refs
                  | Inr (s, cb, vs, state, refs) \<Rightarrow> potential s refs,
     \<lambda>x. case x of
            Inl (s, cb, a, state, skipFirst, refs) \<Rightarrow>
              (if skipFirst \<or> a \<notin> snd ` set (cache s) then 2 + length (children (heap s a)) else 0)
          | Inr (s, cb, vs, state, refs) \<Rightarrow> 1 + length vs]", goal_cases)
  case 1
  show ?case by simp
next
  case (2 s cb a state skipFirst refs)
  then show ?case by simp
next
  case (3 s cb a state skipFirst refs x2 x y)
  then show ?case
    using apply_cb_potential[of s cb refs a state x y] by auto
next
  case (4 s cb v vs state refs)
  then show ?case by simp
next
  case (5 s cb v vs state refs x2)
  then show ?case by (auto dest: getRefItem_in_cache)
next
  case (6 s cb v vs state refs x2 x2a)
  then show ?case
    using traverse_potential_dom(1)[of s cb x2 state False refs x2a] by auto
qed


text \<open>
  \<open>_getRefState(ci)\<close>: \<open>seek_pass\<close> is its first traversal, from
  \<open>refs[ci.rid] = { ci, rc: ci.indirect, st: stateNone }\<close>.
\<close>

definition seek_pass :: "client \<Rightarrow> nat \<Rightarrow> error + (string \<times> RefState) list" where
  "seek_pass s a =
     traverse s SeekRefs a (SNum 0) True
       [(rid (heap s a), \<lparr>ci = a, rc = indirect (heap s a), st = stateNone\<rparr>)]"

definition getRefState :: "client \<Rightarrow> nat \<Rightarrow> error + (string \<times> RefState) list" where
  "getRefState s a =
     (if subscribed (heap s a) then Inr []
      else
        (case seek_pass s a of
           Inl e \<Rightarrow> Inl e
         | Inr refs \<Rightarrow> traverse s MarkDelete a (SNum stateDelete) False refs))"

text \<open>\<open>_addStale\<close>, \<open>_removeStale\<close> and \<open>_setStale\<close>.\<close>

definition addStale :: "client \<Rightarrow> string \<Rightarrow> client" where
  "addStale s k =
     s\<lparr>stale := Some (case stale s of None \<Rightarrow> [k]
                          | Some l \<Rightarrow> if k \<in> set l then l else l @ [k])\<rparr>"

definition removeStale :: "client \<Rightarrow> string \<Rightarrow> client" where
  "removeStale s k =
     (case stale s of
        None \<Rightarrow> s
      | Some l \<Rightarrow> if removeAll k l = [] then s\<lparr>stale := None\<rparr>
                  else s\<lparr>stale := Some (removeAll k l)\<rparr>)"

definition setStale :: "client \<Rightarrow> string \<Rightarrow> client" where
  "setStale s k =
     (let s1 = addStale s k in
      if connected s1 then s1\<lparr>timers := timers s1 @ [SubscribeToStale k]\<rparr> else s1)"

text \<open>
  Modelled from the spec: \<open>CacheItem.removeIndirect(n = 1)\<close> and
  \<open>CacheItem.addIndirect(n = 1)\<close> are not in the sources; the spec has \<open>indirect\<close>
  decremented when an edge is severed and incremented when one is added.
\<close>

definition removeIndirect :: "int \<Rightarrow> CacheItem \<Rightarrow> CacheItem" where
  "removeIndirect n c = c\<lparr>indirect := indirect c - n\<rparr>"

definition addIndirect :: "int \<Rightarrow> CacheItem \<Rightarrow> CacheItem" where
  "addIndirect n c = c\<lparr>indirect := indirect c + n\<rparr>"

text \<open>A method call on the object at address \<open>a\<close>.\<close>

definition upd :: "nat \<Rightarrow> (CacheItem \<Rightarrow> CacheItem) \<Rightarrow> client \<Rightarrow> client" where
  "upd a f s = s\<lparr>heap := (heap s)(a := f (heap s a))\<rparr>"

text \<open>\<open>_deleteRef(ci)\<close>, with its loop over the values of the item.\<close>

fun deleteRef_loop :: "val list \<Rightarrow> client \<Rightarrow> client" where
  "deleteRef_loop [] s = s"
| "deleteRef_loop (v # vs) s =
     (case getRefItem s v of
        None \<Rightarrow> deleteRef_loop vs s
      | Some b \<Rightarrow> deleteRef_loop vs (upd b (removeIndirect 1) s))"

definition deleteRef :: "client \<Rightarrow> nat \<Rightarrow> client" where
  "deleteRef s a =
     (let s1 = deleteRef_loop (children (heap s a)) s;
          s2 = s1\<lparr>cache := AList.delete (rid (heap s1 a)) (cache s1)\<rparr>
      in removeStale s2 (rid (heap s2 a)))"

text \<open>\<open>_tryDelete(ci)\<close>, with its loop \<open>for (let rid in refs)\<close>.\<close>

fun tryDelete_loop :: "(string \<times> RefState) list \<Rightarrow> client \<Rightarrow> client" where
  "tryDelete_loop [] s = s"
| "tryDelete_loop ((k, r) # refs) s =
     tryDelete_loop refs
       (if st r = stateStale then setStale s k
        else if st r = stateDelete then deleteRef s (ci r)
        else s)"

definition tryDelete :: "client \<Rightarrow> nat \<Rightarrow> unit result" where
  "tryDelete s a =
     (case getRefState s a of
        Inl e \<Rightarrow> Throw e s
      | Inr refs \<Rightarrow> Ok () (tryDelete_loop refs s))"

section \<open>Collection diff (\<open>_patchDiff\<close> and \<open>_syncCollection\<close>)\<close>

text \<open>
  \<open>_patchDiff(a, b, onKeep, onAdd, onRemove)\<close> reports its result by calling the three
  callbacks. The model returns the calls in the order the source makes them. Elements are
  compared with \<open>===\<close> in the source: the model takes the comparison as the parameter
  \<open>eq\<close>.
\<close>

datatype 'a diff_call =
    OnKeep 'a nat nat nat
  | OnAdd 'a nat int
  | OnRemove 'a nat nat

text \<open>\<open>while (s < m && s < n && a[s] === b[s]) s++\<close>, with \<open>m = a.length\<close>, \<open>n = b.length\<close>.\<close>

function trim_start :: "('a \<Rightarrow> 'a \<Rightarrow> bool) \<Rightarrow> 'a list \<Rightarrow> 'a list \<Rightarrow> nat \<Rightarrow> nat" where
  "trim_start eq a b s =
     (if s < length a \<and> s < length b \<and> eq (a ! s) (b ! s) then trim_start eq a b (s + 1) else s)"
  by pat_completeness auto
termination
  by (relation "measure (\<lambda>(eq, a, b, s). length a - s)") auto

text \<open>\<open>while (s < m && s < n && a[m - 1] === b[n - 1]) { m--; n--; }\<close>\<close>

function trim_end ::
  "('a \<Rightarrow> 'a \<Rightarrow> bool) \<Rightarrow> 'a list \<Rightarrow> 'a list \<Rightarrow> nat \<Rightarrow> nat \<Rightarrow> nat \<Rightarrow> nat \<times> nat" where
  "trim_end eq a b s m n =
     (if s < m \<and> s < n \<and> eq (a ! (m - 1)) (b ! (n - 1)) then trim_end eq a b s (m - 1) (n - 1)
      else (m, n))"
  by pat_completeness auto
termination
  by (relation "measure (\<lambda>(eq, a, b, s, m, n). m)") auto

text \<open>
  The matrix \<open>c\<close> of the longest-common-subsequence lengths, \<open>m + 1\<close> rows of \<open>n + 1\<close>
  cells. The source allocates the rows with \<open>new Array(n + 1)\<close> and writes column 0 of
  every row and the whole of row 0 with 0; the model starts with 0 in every cell (the
  loops below write each other cell before they read it).
\<close>

definition lcs_init :: "nat \<Rightarrow> nat \<Rightarrow> nat list list" where
  "lcs_init m n = replicate (m + 1) (replicate (n + 1) 0)"

text \<open>The inner loop \<open>for (j = 0; j < n; j++)\<close> of the matrix calculation, for a fixed \<open>i\<close>.\<close>

function lcs_inner ::
  "('a \<Rightarrow> 'a \<Rightarrow> bool) \<Rightarrow> 'a list \<Rightarrow> 'a list \<Rightarrow> nat \<Rightarrow> nat \<Rightarrow> nat list list \<Rightarrow> nat list list" where
  "lcs_inner eq aa bb i j c =
     (if j < length bb then
        lcs_inner eq aa bb i (j + 1)
          (c[i + 1 := (c ! (i + 1))[j + 1 :=
             (if eq (aa ! i) (bb ! j) then c ! i ! j + 1
              else max (c ! (i + 1) ! j) (c ! i ! (j + 1)))]])
      else c)"
  by pat_completeness auto
termination
  by (relation "measure (\<lambda>(eq, aa, bb, i, j, c). length bb - j)") auto

text \<open>The outer loop \<open>for (i = 0; i < m; i++)\<close>.\<close>

function lcs_outer ::
  "('a \<Rightarrow> 'a \<Rightarrow> bool) \<Rightarrow> 'a list \<Rightarrow> 'a list \<Rightarrow> nat \<Rightarrow> nat list list \<Rightarrow> nat list list" where
  "lcs_outer eq aa bb i c =
     (if i < length aa then lcs_outer eq aa bb (i + 1) (lcs_inner eq aa bb i 0 c) else c)"
  by pat_completeness auto
termination
  by (relation "measure (\<lambda>(eq, aa, bb, i, c). length aa - i)") auto

text \<open>
  The loops \<open>for (i = a.length - 1; i >= s + m; i--) onKeep(a[i], i, i - m + n, i)\<close> and
  \<open>for (i = s - 1; i >= 0; i--) onKeep(a[i], i, i, i)\<close>: \<open>keep_down a f lo k\<close> makes the
  calls for \<open>i = lo + k - 1\<close> down to \<open>lo\<close>, with \<open>f i\<close> as the third argument
  (\<open>i - m + n\<close> is written \<open>i + n - m\<close>, the sum first, since \<open>i \<ge> s + m\<close> there).
\<close>

primrec keep_down :: "'a list \<Rightarrow> (nat \<Rightarrow> nat) \<Rightarrow> nat \<Rightarrow> nat \<Rightarrow> 'a diff_call list" where
  "keep_down a f lo 0 = []"
| "keep_down a f lo (Suc k) = OnKeep (a ! (lo + k)) (lo + k) (f (lo + k)) (lo + k) # keep_down a f lo k"

text \<open>
  The backtracking loop \<open>while (true) { m = i - 1; n = j - 1; ... }\<close>. Its state is
  \<open>i\<close>, \<open>j\<close>, \<open>idx\<close>, the count \<open>r\<close> of removes, the array \<open>adds\<close> of triples
  \<open>[n, idx, r]\<close> and the calls made so far. \<open>i - 1\<close> and \<open>j - 1\<close> are read only under
  the guards \<open>i > 0\<close> and \<open>j > 0\<close>, as in the source.
\<close>

function backtrack ::
  "('a \<Rightarrow> 'a \<Rightarrow> bool) \<Rightarrow> 'a list \<Rightarrow> 'a list \<Rightarrow> nat list list \<Rightarrow> nat \<Rightarrow> nat \<Rightarrow> nat \<Rightarrow> nat \<Rightarrow> nat \<Rightarrow>
   (nat \<times> nat \<times> nat) list \<Rightarrow> 'a diff_call list \<Rightarrow>
   'a diff_call list \<times> nat \<times> (nat \<times> nat \<times> nat) list" where
  "backtrack eq aa bb c s i j idx r adds out =
     (if i > 0 \<and> j > 0 \<and> eq (aa ! (i - 1)) (bb ! (j - 1)) then
        backtrack eq aa bb c s (i - 1) (j - 1) (idx - 1) r adds
          (out @ [OnKeep (aa ! (i - 1)) (i - 1 + s) (j - 1 + s) (idx - 1)])
      else if j > 0 \<and> (i = 0 \<or> c ! i ! (j - 1) \<ge> c ! (i - 1) ! j) then
        backtrack eq aa bb c s i (j - 1) idx r (adds @ [(j - 1, idx, r)]) out
      else if i > 0 \<and> (j = 0 \<or> c ! i ! (j - 1) < c ! (i - 1) ! j) then
        backtrack eq aa bb c s (i - 1) j (idx - 1) (r + 1) adds
          (out @ [OnRemove (aa ! (i - 1)) (i - 1 + s) (idx - 1)])
      else (out, r, adds))"
  by pat_completeness auto
termination
  by (relation "measure (\<lambda>(eq, aa, bb, c, s, i, j, idx, r, adds, out). i + j)") auto

text \<open>
  The final loop \<open>for (i = len; i >= 0; i--) { [n, idx, j] = adds[i]; onAdd(bb[n], n + s,
  idx - r + j + len - i) }\<close> with \<open>len = adds.length - 1\<close>: \<open>do_adds bb s r adds k\<close> makes the
  calls for \<open>i = k - 1\<close> down to 0.
\<close>

primrec do_adds :: "'a list \<Rightarrow> nat \<Rightarrow> nat \<Rightarrow> (nat \<times> nat \<times> nat) list \<Rightarrow> nat \<Rightarrow> 'a diff_call list" where
  "do_adds bb s r adds 0 = []"
| "do_adds bb s r adds (Suc i) =
     (case adds ! i of (n, idx, j) \<Rightarrow>
        OnAdd (bb ! n) (n + s) (int idx - int r + int j + (int (length adds) - 1) - int i))
     # do_adds bb s r adds i"

definition patchDiff :: "('a \<Rightarrow> 'a \<Rightarrow> bool) \<Rightarrow> 'a list \<Rightarrow> 'a list \<Rightarrow> 'a diff_call list" where
  "patchDiff eq a b =
     (let s = trim_start eq a b 0 in
      if s = length a \<and> s = length b then []
      else
        let (m0, n0) = trim_end eq a b s (length a) (length b);
            aa = (if s > 0 \<or> m0 < length a then take (m0 - s) (drop s a) else a);
            m = (if s > 0 \<or> m0 < length a then length aa else m0);
            bb = (if s > 0 \<or> n0 < length b then take (n0 - s) (drop s b) else b);
            n = (if s > 0 \<or> n0 < length b then length bb else n0);
            c = lcs_outer eq aa bb 0 (lcs_init m n);
            keeps_end = keep_down a (\<lambda>i. i + n - m) (s + m) (length a - (s + m));
            (out, r, adds) = backtrack eq aa bb c s m n (m + s) 0 [] keeps_end;
            keeps_start = keep_down a (\<lambda>i. i) 0 s
        in out @ keeps_start @ do_adds bb s r adds (length adds))"

text \<open>
  \<open>_syncCollection\<close> passes a no-op for \<open>onKeep\<close>; its \<open>onAdd\<close> callback
  \<open>(id, n, idx) => this._handleAddEvent(cacheItem, 'add', { value: data[n], idx: idx })\<close>
  and its \<open>onRemove\<close> callback
  \<open>(id, m, idx) => this._handleRemoveEvent(cacheItem, 'remove', { idx })\<close> turn the calls
  into the collection's events. \<open>b\<close> is \<open>data\<close> with its references resolved, so the
  value added for \<open>data[n]\<close> is \<open>b[n]\<close>.
\<close>

datatype 'a coll_event = EvAdd 'a int | EvRemove nat

fun sync_event :: "'a list \<Rightarrow> 'a diff_call \<Rightarrow> 'a coll_event list" where
  "sync_event b (OnKeep x m n idx) = []"
| "sync_event b (OnAdd x n idx) = [EvAdd (b ! n) idx]"
| "sync_event b (OnRemove x m idx) = [EvRemove idx]"

definition sync_events :: "('a \<Rightarrow> 'a \<Rightarrow> bool) \<Rightarrow> 'a list \<Rightarrow> 'a list \<Rightarrow> 'a coll_event list" where
  "sync_events eq a b = concat (map (sync_event b) (patchDiff eq a b))"

text \<open>
  Applying an event to a sequence, as the spec words it: \<open>add\<close> inserts the value at
  \<open>idx\<close>, \<open>remove\<close> removes the element at \<open>idx\<close>. An index out of range leaves no
  place to insert at or remove from: the result is \<open>None\<close>.
\<close>

fun apply_event :: "'a coll_event \<Rightarrow> 'a list \<Rightarrow> 'a list option" where
  "apply_event (EvAdd v idx) xs =
     (if 0 \<le> idx \<and> idx \<le> int (length xs) then Some (take (nat idx) xs @ v # drop (nat idx) xs)
      else None)"
| "apply_event (EvRemove idx) xs =
     (if idx < length xs then Some (take idx xs @ drop (Suc idx) xs) else None)"

fun apply_events :: "'a coll_event list \<Rightarrow> 'a list \<Rightarrow> 'a list option" where
  "apply_events [] xs = Some xs"
| "apply_events (e # es) xs =
     (case apply_event e xs of None \<Rightarrow> None | Some ys \<Rightarrow> apply_events es ys)"

subsection \<open>Correctness of the collection diff\<close>

declare trim_start.simps [simp del] trim_end.simps [simp del] backtrack.simps [simp del]
  lcs_inner.simps [simp del] lcs_outer.simps [simp del]

lemma apply_events_append:
  "apply_events (es @ fs) xs = (case apply_events es xs of None \<Rightarrow> None | Some ys \<Rightarrow> apply_events fs ys)"
  by (induction es arbitrary: xs) (auto split: option.splits)

lemma trim_start_spec:
  "(\<And>x y. eq x y \<Longrightarrow> x = y) \<Longrightarrow> take s0 a = take s0 b \<Longrightarrow> s0 \<le> length a \<Longrightarrow> s0 \<le> length b \<Longrightarrow>
   take (trim_start eq a b s0) a = take (trim_start eq a b s0) b \<and> trim_start eq a b s0 \<le> length a
   \<and> trim_start eq a b s0 \<le> length b"
proof (induction eq a b s0 rule: trim_start.induct)
  case (1 eq a b s)
  show ?case
  proof (cases "s < length a \<and> s < length b \<and> eq (a ! s) (b ! s)")
    case True
    then have "a ! s = b ! s" using "1.prems"(1) by blast
    with True have "take (s + 1) a = take (s + 1) b"
      using "1.prems"(2) by (simp add: take_Suc_conv_app_nth)
    with True "1.IH" "1.prems"(1) show ?thesis
      by (subst (1 2 3 4) trim_start.simps) simp
  next
    case False
    with "1.prems" show ?thesis
      by (subst (1 2 3 4) trim_start.simps) auto
  qed
qed

lemma trim_end_spec:
  "(\<And>x y. eq x y \<Longrightarrow> x = y) \<Longrightarrow> trim_end eq a b s m n = (m', n') \<Longrightarrow>
   drop m a = drop n b \<Longrightarrow> m \<le> length a \<Longrightarrow> n \<le> length b \<Longrightarrow> s \<le> m \<Longrightarrow> s \<le> n \<Longrightarrow>
   drop m' a = drop n' b \<and> s \<le> m' \<and> s \<le> n' \<and> m' \<le> length a \<and> n' \<le> length b"
proof (induction eq a b s m n rule: trim_end.induct)
  case (1 eq a b s m n)
  note sound = "1.prems"(1)
  note prems = "1.prems"(2-)
  show ?case
  proof (cases "s < m \<and> s < n \<and> eq (a ! (m - 1)) (b ! (n - 1))")
    case True
    then have eqv: "a ! (m - 1) = b ! (n - 1)" using sound by blast
    from True obtain m1 n1 where mn: "m = Suc m1" "n = Suc n1"
      by (cases m; cases n) auto
    have lt: "m1 < length a" "n1 < length b" using prems mn by simp_all
    have "drop m1 a = a ! m1 # drop (Suc m1) a" "drop n1 b = b ! n1 # drop (Suc n1) b"
      using lt by (simp_all add: Cons_nth_drop_Suc)
    then have d: "drop (m - 1) a = drop (n - 1) b" using eqv prems mn by simp
    have "trim_end eq a b s (m - 1) (n - 1) = (m', n')"
      using prems(1) True by (subst (asm) trim_end.simps) simp
    from "1.IH"[OF True sound this d] True prems show ?thesis by auto
  next
    case False
    with prems show ?thesis
      by (subst (asm) trim_end.simps) auto
  qed
qed

text \<open>
  The events of a list of calls, and the \<open>add\<close> events of the triples pushed on \<open>adds\<close>
  once their index is known to be \<open>n + s\<close>.
\<close>

definition add_events :: "'a list \<Rightarrow> nat \<Rightarrow> (nat \<times> nat \<times> nat) list \<Rightarrow> 'a coll_event list" where
  "add_events bb s nadds = map (\<lambda>t. EvAdd (bb ! fst t) (int (fst t + s))) (rev nadds)"

definition calls_events :: "'a list \<Rightarrow> 'a diff_call list \<Rightarrow> 'a coll_event list" where
  "calls_events b cs = concat (map (sync_event b) cs)"

lemma calls_events_simps [simp]:
  "calls_events b [] = []"
  "calls_events b (OnKeep x m n idx # cs) = calls_events b cs"
  "calls_events b (OnRemove x m idx # cs) = EvRemove idx # calls_events b cs"
  "calls_events b (OnAdd x n k # cs) = EvAdd (b ! n) k # calls_events b cs"
  "calls_events b (cs @ ds) = calls_events b cs @ calls_events b ds"
  by (simp_all add: calls_events_def)

lemma remove_mid:
  "length pre = s \<Longrightarrow> i > 0 \<Longrightarrow> i \<le> length aa \<Longrightarrow>
   apply_event (EvRemove (i - 1 + s)) (pre @ take i aa @ X) = Some (pre @ take (i - 1) aa @ X)"
proof -
  assume a: "length pre = s" "i > 0" "i \<le> length aa"
  then obtain i1 where i: "i = Suc i1" by (cases i) auto
  have t: "take i aa = take i1 aa @ [aa ! i1]"
    using a i by (simp add: take_Suc_conv_app_nth)
  show ?thesis using a i unfolding t by (simp add: min_def)
qed

lemma add_mid:
  "length pre = s \<Longrightarrow> j > 0 \<Longrightarrow> j \<le> length bb \<Longrightarrow>
   apply_event (EvAdd (bb ! (j - 1)) (int (j - 1 + s))) (pre @ take (j - 1) bb @ X)
     = Some (pre @ take j bb @ X)"
proof -
  assume a: "length pre = s" "j > 0" "j \<le> length bb"
  then obtain j1 where j: "j = Suc j1" by (cases j) auto
  have t: "take j bb = take j1 bb @ [bb ! j1]"
    using a j by (simp add: take_Suc_conv_app_nth)
  show ?thesis using a j unfolding t by (simp add: min_def nat_add_distrib)
qed

lemma backtrack_keep:
  "i > 0 \<and> j > 0 \<and> eq (aa ! (i - 1)) (bb ! (j - 1)) \<Longrightarrow>
   backtrack eq aa bb c s i j idx r adds out =
   backtrack eq aa bb c s (i - 1) (j - 1) (idx - 1) r adds
     (out @ [OnKeep (aa ! (i - 1)) (i - 1 + s) (j - 1 + s) (idx - 1)])"
  by (subst backtrack.simps) auto

lemma backtrack_add:
  "\<not> (i > 0 \<and> j > 0 \<and> eq (aa ! (i - 1)) (bb ! (j - 1))) \<Longrightarrow>
   j > 0 \<and> (i = 0 \<or> c ! i ! (j - 1) \<ge> c ! (i - 1) ! j) \<Longrightarrow>
   backtrack eq aa bb c s i j idx r adds out =
   backtrack eq aa bb c s i (j - 1) idx r (adds @ [(j - 1, idx, r)]) out"
  by (subst backtrack.simps) auto

lemma backtrack_remove:
  "\<not> (i > 0 \<and> j > 0 \<and> eq (aa ! (i - 1)) (bb ! (j - 1))) \<Longrightarrow>
   \<not> (j > 0 \<and> (i = 0 \<or> c ! i ! (j - 1) \<ge> c ! (i - 1) ! j)) \<Longrightarrow>
   i > 0 \<and> (j = 0 \<or> c ! i ! (j - 1) < c ! (i - 1) ! j) \<Longrightarrow>
   backtrack eq aa bb c s i j idx r adds out =
   backtrack eq aa bb c s (i - 1) j (idx - 1) (r + 1) adds
     (out @ [OnRemove (aa ! (i - 1)) (i - 1 + s) (idx - 1)])"
  by (subst backtrack.simps) auto

lemma backtrack_stop:
  "\<not> (i > 0 \<and> j > 0 \<and> eq (aa ! (i - 1)) (bb ! (j - 1))) \<Longrightarrow>
   \<not> (j > 0 \<and> (i = 0 \<or> c ! i ! (j - 1) \<ge> c ! (i - 1) ! j)) \<Longrightarrow>
   \<not> (i > 0 \<and> (j = 0 \<or> c ! i ! (j - 1) < c ! (i - 1) ! j)) \<Longrightarrow>
   backtrack eq aa bb c s i j idx r adds out = (out, r, adds)"
  by (subst backtrack.simps) auto

lemma backtrack_spec:
  "(\<And>x y. eq x y \<Longrightarrow> x = y) \<Longrightarrow>
   backtrack eq aa bb c s i j idx r adds out = (out', r', adds') \<Longrightarrow> idx = i + s \<Longrightarrow>
   i \<le> length aa \<Longrightarrow> j \<le> length bb \<Longrightarrow>
   \<exists>more K nadds. out' = out @ more \<and> adds' = adds @ nadds \<and> length K \<le> i \<and> length K \<le> j
     \<and> r' = r + (i - length K) \<and> length nadds = j - length K
     \<and> (\<forall>pre X. length pre = s \<longrightarrow>
           apply_events (calls_events b more) (pre @ take i aa @ X) = Some (pre @ K @ X))
     \<and> (\<forall>p<length nadds. fst (nadds ! p) < j \<and>
           int (fst (snd (nadds ! p))) - int r' + int (snd (snd (nadds ! p)))
             + (int (length nadds) - 1) - int p = int (fst (nadds ! p) + s))
     \<and> (\<forall>pre X. length pre = s \<longrightarrow>
           apply_events (add_events bb s nadds) (pre @ K @ X) = Some (pre @ take j bb @ X))"
proof (induction eq aa bb c s i j idx r adds out rule: backtrack.induct)
  case (1 eq aa bb c s i j idx r adds out)
  let ?keep = "i > 0 \<and> j > 0 \<and> eq (aa ! (i - 1)) (bb ! (j - 1))"
  let ?add = "j > 0 \<and> (i = 0 \<or> c ! i ! (j - 1) \<ge> c ! (i - 1) ! j)"
  let ?rem = "i > 0 \<and> (j = 0 \<or> c ! i ! (j - 1) < c ! (i - 1) ! j)"
  note sound = "1.prems"(1)
  note prems = "1.prems"(2-)
  show ?case
  proof (cases ?keep)
    case True
    let ?k = "OnKeep (aa ! (i - 1)) (i - 1 + s) (j - 1 + s) (idx - 1)"
    have bt: "backtrack eq aa bb c s (i - 1) (j - 1) (idx - 1) r adds (out @ [?k]) = (out', r', adds')"
      using prems(1) backtrack_keep[where eq=eq and aa=aa and bb=bb and i=i and j=j, OF True] by simp
    from True obtain i1 j1 where ij: "i = Suc i1" "j = Suc j1" by (cases i; cases j) auto
    have "idx - 1 = i - 1 + s" "i - 1 \<le> length aa" "j - 1 \<le> length bb"
      using prems ij by simp_all
    from "1.IH"(1)[OF True sound bt this] obtain more K nadds where
      ih: "out' = (out @ [?k]) @ more" "adds' = adds @ nadds" "length K \<le> i - 1" "length K \<le> j - 1"
        "r' = r + (i - 1 - length K)" "length nadds = j - 1 - length K"
        "\<forall>pre X. length pre = s \<longrightarrow>
           apply_events (calls_events b more) (pre @ take (i - 1) aa @ X) = Some (pre @ K @ X)"
        "\<forall>p<length nadds. fst (nadds ! p) < j - 1 \<and>
           int (fst (snd (nadds ! p))) - int r' + int (snd (snd (nadds ! p)))
             + (int (length nadds) - 1) - int p = int (fst (nadds ! p) + s)"
        "\<forall>pre X. length pre = s \<longrightarrow>
           apply_events (add_events bb s nadds) (pre @ K @ X) = Some (pre @ take (j - 1) bb @ X)"
      by blast
    have ta: "take i aa = take i1 aa @ [aa ! i1]" and tb: "take j bb = take j1 bb @ [bb ! j1]"
      using prems ij by (simp_all add: take_Suc_conv_app_nth)
    have eqv: "aa ! i1 = bb ! j1" using True ij sound by simp
    show ?thesis
    proof (intro exI[of _ "?k # more"] exI[of _ "K @ [aa ! (i - 1)]"] exI[of _ nadds] conjI allI impI)
      show "out' = out @ ?k # more" using ih(1) by simp
      show "adds' = adds @ nadds" by (rule ih(2))
      show "length (K @ [aa ! (i - 1)]) \<le> i" using ih(3) ij by simp
      show "length (K @ [aa ! (i - 1)]) \<le> j" using ih(4) ij by simp
      show "r' = r + (i - length (K @ [aa ! (i - 1)]))" using ih(5) ij by simp
      show "length nadds = j - length (K @ [aa ! (i - 1)])" using ih(6) ij by simp
    next
      fix pre X :: "'a list" assume "length pre = s"
      then show "apply_events (calls_events b (?k # more)) (pre @ take i aa @ X)
          = Some (pre @ (K @ [aa ! (i - 1)]) @ X)"
        using ih(7)[rule_format, of pre "aa ! i1 # X"] ij ta by simp
    next
      fix p assume p: "p < length nadds"
      show "fst (nadds ! p) < j" using ih(8)[rule_format, OF p] by linarith
      show "int (fst (snd (nadds ! p))) - int r' + int (snd (snd (nadds ! p)))
             + (int (length nadds) - 1) - int p = int (fst (nadds ! p) + s)"
        using ih(8)[rule_format, OF p] by simp
    next
      fix pre X :: "'a list" assume "length pre = s"
      then show "apply_events (add_events bb s nadds) (pre @ (K @ [aa ! (i - 1)]) @ X)
          = Some (pre @ take j bb @ X)"
        using ih(9)[rule_format, of pre "bb ! j1 # X"] ij tb eqv by simp
    qed
  next
    case nk: False
    show ?thesis
    proof (cases ?add)
      case True
      have bt: "backtrack eq aa bb c s i (j - 1) idx r (adds @ [(j - 1, idx, r)]) out = (out', r', adds')"
        using prems(1) backtrack_add[where eq=eq and aa=aa and bb=bb and i=i and j=j and c=c, OF nk True] by simp
      from True obtain j1 where j: "j = Suc j1" by (cases j) auto
      have "j - 1 \<le> length bb" using prems j by simp
      from "1.IH"(2)[OF nk True sound bt prems(2,3) this] obtain more K nadds where
        ih: "out' = out @ more" "adds' = (adds @ [(j - 1, idx, r)]) @ nadds" "length K \<le> i"
          "length K \<le> j - 1"
          "r' = r + (i - length K)" "length nadds = j - 1 - length K"
          "\<forall>pre X. length pre = s \<longrightarrow>
             apply_events (calls_events b more) (pre @ take i aa @ X) = Some (pre @ K @ X)"
          "\<forall>p<length nadds. fst (nadds ! p) < j - 1 \<and>
             int (fst (snd (nadds ! p))) - int r' + int (snd (snd (nadds ! p)))
               + (int (length nadds) - 1) - int p = int (fst (nadds ! p) + s)"
          "\<forall>pre X. length pre = s \<longrightarrow>
             apply_events (add_events bb s nadds) (pre @ K @ X) = Some (pre @ take (j - 1) bb @ X)"
        by blast
      let ?nadds = "(j - 1, idx, r) # nadds"
      show ?thesis
      proof (intro exI[of _ more] exI[of _ K] exI[of _ ?nadds] conjI allI impI)
        show "out' = out @ more" by (rule ih(1))
        show "adds' = adds @ ?nadds" using ih(2) by simp
        show "length K \<le> i" by (rule ih(3))
        show "length K \<le> j" using ih(4) by simp
        show "r' = r + (i - length K)" by (rule ih(5))
        show "length ?nadds = j - length K" using ih(4,6) j by simp
      next
        fix pre X :: "'a list" assume "length pre = s"
        then show "apply_events (calls_events b more) (pre @ take i aa @ X) = Some (pre @ K @ X)"
          using ih(7) by blast
      next
        fix p assume p: "p < length ?nadds"
        have both: "fst (?nadds ! p) < j \<and>
             int (fst (snd (?nadds ! p))) - int r' + int (snd (snd (?nadds ! p)))
               + (int (length ?nadds) - 1) - int p = int (fst (?nadds ! p) + s)"
        proof (cases p)
          case 0
          then show ?thesis using ih(3,4,5,6) j prems(2) by simp
        next
          case (Suc p')
          then have "p' < length nadds" using p by simp
          from ih(8)[rule_format, OF this] Suc show ?thesis by auto
        qed
        show "fst (?nadds ! p) < j" using both by simp
        show "int (fst (snd (?nadds ! p))) - int r' + int (snd (snd (?nadds ! p)))
               + (int (length ?nadds) - 1) - int p = int (fst (?nadds ! p) + s)"
          using both by simp
      next
        fix pre X :: "'a list" assume l: "length pre = s"
        have "add_events bb s ?nadds = add_events bb s nadds @ [EvAdd (bb ! (j - 1)) (int (j - 1 + s))]"
          by (simp add: add_events_def)
        then show "apply_events (add_events bb s ?nadds) (pre @ K @ X) = Some (pre @ take j bb @ X)"
          using ih(9)[rule_format, OF l, of X] add_mid[OF l, of j bb X] True prems(4)
          by (simp add: apply_events_append)
      qed
    next
      case na: False
      show ?thesis
      proof (cases ?rem)
        case True
        let ?r = "OnRemove (aa ! (i - 1)) (i - 1 + s) (idx - 1)"
        have bt: "backtrack eq aa bb c s (i - 1) j (idx - 1) (r + 1) adds (out @ [?r]) = (out', r', adds')"
          using prems(1) backtrack_remove[where eq=eq and aa=aa and bb=bb and i=i and j=j and c=c, OF nk na True] by simp
        from True obtain i1 where i: "i = Suc i1" by (cases i) auto
        have "idx - 1 = i - 1 + s" "i - 1 \<le> length aa" using prems i by simp_all
        from "1.IH"(3)[OF nk na True sound bt this prems(4)] obtain more K nadds where
          ih: "out' = (out @ [?r]) @ more" "adds' = adds @ nadds" "length K \<le> i - 1"
            "length K \<le> j"
            "r' = r + 1 + (i - 1 - length K)" "length nadds = j - length K"
            "\<forall>pre X. length pre = s \<longrightarrow>
               apply_events (calls_events b more) (pre @ take (i - 1) aa @ X) = Some (pre @ K @ X)"
            "\<forall>p<length nadds. fst (nadds ! p) < j \<and>
               int (fst (snd (nadds ! p))) - int r' + int (snd (snd (nadds ! p)))
                 + (int (length nadds) - 1) - int p = int (fst (nadds ! p) + s)"
            "\<forall>pre X. length pre = s \<longrightarrow>
               apply_events (add_events bb s nadds) (pre @ K @ X) = Some (pre @ take j bb @ X)"
          by blast
        show ?thesis
        proof (intro exI[of _ "?r # more"] exI[of _ K] exI[of _ nadds] conjI allI impI)
          show "out' = out @ ?r # more" using ih(1) by simp
          show "adds' = adds @ nadds" by (rule ih(2))
          show "length K \<le> i" using ih(3) by simp
          show "length K \<le> j" by (rule ih(4))
          show "r' = r + (i - length K)" using ih(3,5) i by simp
          show "length nadds = j - length K" by (rule ih(6))
        next
          fix pre X :: "'a list" assume l: "length pre = s"
          show "apply_events (calls_events b (?r # more)) (pre @ take i aa @ X) = Some (pre @ K @ X)"
            using ih(7)[rule_format, OF l, of X] remove_mid[OF l, of i aa X] True prems(2,3)
            by simp
        next
          fix p assume p: "p < length nadds"
          show "fst (nadds ! p) < j" using ih(8)[rule_format, OF p] by simp
          show "int (fst (snd (nadds ! p))) - int r' + int (snd (snd (nadds ! p)))
                 + (int (length nadds) - 1) - int p = int (fst (nadds ! p) + s)"
            using ih(8)[rule_format, OF p] by simp
        next
          fix pre X :: "'a list" assume "length pre = s"
          then show "apply_events (add_events bb s nadds) (pre @ K @ X) = Some (pre @ take j bb @ X)"
            using ih(9) by blast
        qed
      next
        case nr: False
        have z: "i = 0" "j = 0" using na nr by auto
        have "(out', r', adds') = (out, r, adds)"
          using prems(1) backtrack_stop[where eq=eq and aa=aa and bb=bb and i=i and j=j and c=c, OF nk na nr] by simp
        then show ?thesis
          using z by (intro exI[of _ "[]"]) (simp add: add_events_def)
      qed
    qed
  qed
qed

lemma backtrack_order:
  "backtrack eq aa bb c s i j idx r adds out = (out', r', adds') \<Longrightarrow> idx = i + s \<Longrightarrow>
   \<exists>more nadds rs. out' = out @ more \<and> adds' = adds @ nadds
     \<and> calls_events b more = map EvRemove rs \<and> sorted_wrt (>) rs \<and> (\<forall>x\<in>set rs. x < i + s)
     \<and> sorted_wrt (>) (map fst nadds) \<and> (\<forall>x\<in>set nadds. fst x < j)"
proof (induction eq aa bb c s i j idx r adds out rule: backtrack.induct)
  case (1 eq aa bb c s i j idx r adds out)
  let ?keep = "i > 0 \<and> j > 0 \<and> eq (aa ! (i - 1)) (bb ! (j - 1))"
  let ?add = "j > 0 \<and> (i = 0 \<or> c ! i ! (j - 1) \<ge> c ! (i - 1) ! j)"
  let ?rem = "i > 0 \<and> (j = 0 \<or> c ! i ! (j - 1) < c ! (i - 1) ! j)"
  note prems = "1.prems"
  show ?case
  proof (cases ?keep)
    case True
    let ?k = "OnKeep (aa ! (i - 1)) (i - 1 + s) (j - 1 + s) (idx - 1)"
    have bt: "backtrack eq aa bb c s (i - 1) (j - 1) (idx - 1) r adds (out @ [?k]) = (out', r', adds')"
      using prems(1) backtrack_keep[where eq=eq and aa=aa and bb=bb and i=i and j=j, OF True] by simp
    have "idx - 1 = i - 1 + s" using prems True by simp
    from "1.IH"(1)[OF True bt this] obtain more nadds rs where
      ih: "out' = (out @ [?k]) @ more" "adds' = adds @ nadds"
        "calls_events b more = map EvRemove rs" "sorted_wrt (>) rs" "\<forall>x\<in>set rs. x < i - 1 + s"
        "sorted_wrt (>) (map fst nadds)" "\<forall>x\<in>set nadds. fst x < j - 1"
      by blast
    have "out' = out @ ?k # more" using ih(1) by simp
    moreover have "calls_events b (?k # more) = map EvRemove rs" using ih(3) by simp
    moreover have "\<forall>x\<in>set rs. x < i + s" using ih(5) by auto
    moreover have "\<forall>x\<in>set nadds. fst x < j" using ih(7) by auto
    ultimately show ?thesis using ih(2,4,6) by blast
  next
    case nk: False
    show ?thesis
    proof (cases ?add)
      case True
      have bt: "backtrack eq aa bb c s i (j - 1) idx r (adds @ [(j - 1, idx, r)]) out = (out', r', adds')"
        using prems(1) backtrack_add[where eq=eq and aa=aa and bb=bb and i=i and j=j and c=c, OF nk True] by simp
      from "1.IH"(2)[OF nk True bt prems(2)] obtain more nadds rs where
        ih: "out' = out @ more" "adds' = (adds @ [(j - 1, idx, r)]) @ nadds"
          "calls_events b more = map EvRemove rs" "sorted_wrt (>) rs" "\<forall>x\<in>set rs. x < i + s"
          "sorted_wrt (>) (map fst nadds)" "\<forall>x\<in>set nadds. fst x < j - 1"
        by blast
      let ?nadds = "(j - 1, idx, r) # nadds"
      have "adds' = adds @ ?nadds" using ih(2) by simp
      moreover have "sorted_wrt (>) (map fst ?nadds)" using ih(6,7) by auto
      moreover have "\<forall>x\<in>set ?nadds. fst x < j" using ih(7) True by auto
      ultimately show ?thesis using ih(1,3,4,5) by blast
    next
      case na: False
      show ?thesis
      proof (cases ?rem)
        case True
        let ?r = "OnRemove (aa ! (i - 1)) (i - 1 + s) (idx - 1)"
        have bt: "backtrack eq aa bb c s (i - 1) j (idx - 1) (r + 1) adds (out @ [?r]) = (out', r', adds')"
          using prems(1) backtrack_remove[where eq=eq and aa=aa and bb=bb and i=i and j=j and c=c, OF nk na True] by simp
        have "idx - 1 = i - 1 + s" using prems True by simp
        from "1.IH"(3)[OF nk na True bt this] obtain more nadds rs where
          ih: "out' = (out @ [?r]) @ more" "adds' = adds @ nadds"
            "calls_events b more = map EvRemove rs" "sorted_wrt (>) rs" "\<forall>x\<in>set rs. x < i - 1 + s"
            "sorted_wrt (>) (map fst nadds)" "\<forall>x\<in>set nadds. fst x < j"
          by blast
        let ?rs = "(idx - 1) # rs"
        have "out' = out @ ?r # more" using ih(1) by simp
        moreover have "calls_events b (?r # more) = map EvRemove ?rs" using ih(3) by simp
        moreover have "sorted_wrt (>) ?rs" using ih(4,5) prems(2) True by auto
        moreover have "\<forall>x\<in>set ?rs. x < i + s" using ih(5) prems(2) True by auto
        ultimately show ?thesis using ih(2,6,7) by blast
      next
        case nr: False
        have "(out', r', adds') = (out, r, adds)"
          using prems(1) backtrack_stop[where eq=eq and aa=aa and bb=bb and i=i and j=j and c=c, OF nk na nr] by simp
        then show ?thesis
          by (intro exI[of _ "[]"]) simp
      qed
    qed
  qed
qed

lemma calls_events_keep_down [simp]: "calls_events b (keep_down a f lo k) = []"
  by (induction k) simp_all

lemma calls_events_do_adds:
  "k \<le> length adds \<Longrightarrow>
   \<forall>p<length adds. int (fst (snd (adds ! p))) - int r + int (snd (snd (adds ! p)))
       + (int (length adds) - 1) - int p = int (fst (adds ! p) + s) \<Longrightarrow>
   calls_events b (do_adds bb s r adds k)
     = map (\<lambda>t. EvAdd (b ! (fst t + s)) (int (fst t + s))) (rev (take k adds))"
proof (induction k)
  case 0
  then show ?case by simp
next
  case (Suc k)
  then have k: "k < length adds" by simp
  obtain n idx j where t: "adds ! k = (n, idx, j)" by (cases "adds ! k") auto
  have "int idx - int r + int j + (int (length adds) - 1) - int k = int (n + s)"
    using Suc.prems(2)[rule_format, OF k] t by simp
  then show ?case
    using Suc k t by (simp add: take_Suc_conv_app_nth)
qed

lemma patchDiff_unfold:
  assumes ne: "\<not> (trim_start eq a b 0 = length a \<and> trim_start eq a b 0 = length b)"
    and te: "trim_end eq a b (trim_start eq a b 0) (length a) (length b) = (m0, n0)"
    and le: "m0 \<le> length a" "n0 \<le> length b" "trim_start eq a b 0 \<le> m0" "trim_start eq a b 0 \<le> n0"
    and bt: "backtrack eq (take (m0 - trim_start eq a b 0) (drop (trim_start eq a b 0) a))
               (take (n0 - trim_start eq a b 0) (drop (trim_start eq a b 0) b))
               (lcs_outer eq (take (m0 - trim_start eq a b 0) (drop (trim_start eq a b 0) a))
                  (take (n0 - trim_start eq a b 0) (drop (trim_start eq a b 0) b)) 0
                  (lcs_init (m0 - trim_start eq a b 0) (n0 - trim_start eq a b 0)))
               (trim_start eq a b 0) (m0 - trim_start eq a b 0) (n0 - trim_start eq a b 0)
               (m0 - trim_start eq a b 0 + trim_start eq a b 0) 0 []
               (keep_down a (\<lambda>i. i + (n0 - trim_start eq a b 0) - (m0 - trim_start eq a b 0))
                  (trim_start eq a b 0 + (m0 - trim_start eq a b 0))
                  (length a - (trim_start eq a b 0 + (m0 - trim_start eq a b 0))))
             = (out, r, adds)"
  shows "patchDiff eq a b = out @ keep_down a (\<lambda>i. i) 0 (trim_start eq a b 0)
           @ do_adds (take (n0 - trim_start eq a b 0) (drop (trim_start eq a b 0) b)) (trim_start eq a b 0) r adds (length adds)"
proof -
  let ?s = "trim_start eq a b 0"
  have aa: "(if ?s > 0 \<or> m0 < length a then take (m0 - ?s) (drop ?s a) else a) = take (m0 - ?s) (drop ?s a)"
    using le by auto
  have bb: "(if ?s > 0 \<or> n0 < length b then take (n0 - ?s) (drop ?s b) else b) = take (n0 - ?s) (drop ?s b)"
    using le by auto
  have m: "(if ?s > 0 \<or> m0 < length a then length (take (m0 - ?s) (drop ?s a)) else m0) = m0 - ?s"
    using le by auto
  have n: "(if ?s > 0 \<or> n0 < length b then length (take (n0 - ?s) (drop ?s b)) else n0) = n0 - ?s"
    using le by auto
  show ?thesis
    unfolding patchDiff_def Let_def te prod.case aa bb m n bt
    by (simp only: ne if_False)
qed

text \<open>
  Claim C3. Let the comparison \<open>eq\<close> hold only between equal elements, as \<open>===\<close> does.
  For all sequences \<open>a\<close> and \<open>b\<close>, the events that \<open>_syncCollection\<close> emits from the
  calls of \<open>_patchDiff\<close>, applied in emission order to a copy of \<open>a\<close>, produce exactly
  \<open>b\<close>: every event finds its index in range. The events are first the removes, in
  strictly descending index order, and then the adds, in strictly ascending index order,
  each add inserting \<open>b[n]\<close> at index \<open>n\<close>.
\<close>

theorem sync_roundtrip:
  assumes sound: "\<And>x y. eq x y \<Longrightarrow> x = y"
  shows "apply_events (sync_events eq a b) a = Some b \<and>
   (\<exists>rs ns. sync_events eq a b = map EvRemove rs @ map (\<lambda>n. EvAdd (b ! n) (int n)) ns
      \<and> sorted_wrt (>) rs \<and> sorted_wrt (<) ns)"
proof (cases "trim_start eq a b 0 = length a \<and> trim_start eq a b 0 = length b")
  case True
  have "take (trim_start eq a b 0) a = take (trim_start eq a b 0) b"
    using trim_start_spec[OF sound, of eq 0 a b] by simp
  then have "a = b" using True by simp
  moreover have "sync_events eq a b = []"
    using True by (simp add: sync_events_def patchDiff_def)
  ultimately show ?thesis by (auto intro: exI[of _ "[]"])
next
  case False
  define s where "s = trim_start eq a b 0"
  have s: "take s a = take s b" "s \<le> length a" "s \<le> length b"
    using trim_start_spec[OF sound, of eq 0 a b] by (simp_all add: s_def)
  obtain m0 n0 where te: "trim_end eq a b s (length a) (length b) = (m0, n0)"
    by (cases "trim_end eq a b s (length a) (length b)") auto
  from trim_end_spec[OF sound te] s have
    e: "drop m0 a = drop n0 b" "s \<le> m0" "s \<le> n0" "m0 \<le> length a" "n0 \<le> length b"
    by simp_all
  define aa where "aa = take (m0 - s) (drop s a)"
  define bb where "bb = take (n0 - s) (drop s b)"
  define pre where "pre = take s a"
  define suf where "suf = drop m0 a"
  have la: "length aa = m0 - s" and lb: "length bb = n0 - s" and lp: "length pre = s"
    using e s by (simp_all add: aa_def bb_def pre_def)
  have a: "a = pre @ aa @ suf"
  proof -
    have "drop s a = aa @ drop (m0 - s) (drop s a)" by (simp only: aa_def append_take_drop_id)
    also have "drop (m0 - s) (drop s a) = suf" using e by (simp add: suf_def)
    finally show ?thesis by (metis append_take_drop_id pre_def)
  qed
  have b: "b = pre @ bb @ suf"
  proof -
    have "drop s b = bb @ drop (n0 - s) (drop s b)" by (simp only: bb_def append_take_drop_id)
    also have "drop (n0 - s) (drop s b) = suf" using e by (simp add: suf_def)
    finally show ?thesis by (metis append_take_drop_id pre_def s(1))
  qed
  define c where "c = lcs_outer eq aa bb 0 (lcs_init (m0 - s) (n0 - s))"
  define ke where "ke = keep_down a (\<lambda>i. i + (n0 - s) - (m0 - s)) (s + (m0 - s)) (length a - (s + (m0 - s)))"
  obtain out r adds where bt: "backtrack eq aa bb c s (m0 - s) (n0 - s) (m0 - s + s) 0 [] ke = (out, r, adds)"
    by (cases "backtrack eq aa bb c s (m0 - s) (n0 - s) (m0 - s + s) 0 [] ke") auto
  have pd: "patchDiff eq a b = out @ keep_down a (\<lambda>i. i) 0 s @ do_adds bb s r adds (length adds)"
    using patchDiff_unfold[of eq a b m0 n0 out r adds] False te e bt
    unfolding s_def aa_def bb_def c_def ke_def by simp
  from backtrack_spec[OF sound bt, of b] la lb obtain more K where
    sp: "out = ke @ more" "length K \<le> m0 - s" "length K \<le> n0 - s"
      "r = 0 + (m0 - s - length K)" "length adds = n0 - s - length K"
      "\<forall>pre X. length pre = s \<longrightarrow>
         apply_events (calls_events b more) (pre @ take (m0 - s) aa @ X) = Some (pre @ K @ X)"
      "\<forall>p<length adds. fst (adds ! p) < n0 - s \<and>
         int (fst (snd (adds ! p))) - int r + int (snd (snd (adds ! p)))
           + (int (length adds) - 1) - int p = int (fst (adds ! p) + s)"
      "\<forall>pre X. length pre = s \<longrightarrow>
         apply_events (add_events bb s adds) (pre @ K @ X) = Some (pre @ take (n0 - s) bb @ X)"
    by auto
  from backtrack_order[OF bt, of b] sp(1) obtain rs where
    or: "calls_events b more = map EvRemove rs" "sorted_wrt (>) rs"
      "sorted_wrt (>) (map fst adds)"
    by auto
  have idx: "\<forall>p<length adds. int (fst (snd (adds ! p))) - int r + int (snd (snd (adds ! p)))
           + (int (length adds) - 1) - int p = int (fst (adds ! p) + s)"
    using sp(7) by blast
  have nth_b: "\<And>t. t \<in> set adds \<Longrightarrow> b ! (fst t + s) = bb ! fst t"
  proof -
    fix t assume "t \<in> set adds"
    then obtain p where "p < length adds" "adds ! p = t" by (auto simp: in_set_conv_nth)
    then have "fst t < n0 - s" using sp(7) by auto
    then show "b ! (fst t + s) = bb ! fst t"
      using lp lb by (subst b) (simp add: nth_append)
  qed
  have da: "calls_events b (do_adds bb s r adds (length adds)) = add_events bb s adds"
    using calls_events_do_adds[OF le_refl idx, of b bb] nth_b
    by (simp add: add_events_def)
  have ev: "sync_events eq a b = calls_events b more @ add_events bb s adds"
    using pd sp(1) da by (simp add: sync_events_def calls_events_def[symmetric] ke_def)
  have "apply_events (calls_events b more) a = Some (pre @ K @ suf)"
    using sp(6)[rule_format, OF lp, of suf] la by (subst a) simp
  moreover have "apply_events (add_events bb s adds) (pre @ K @ suf) = Some b"
    using sp(8)[rule_format, OF lp, of suf] lb b by simp
  ultimately have rt: "apply_events (sync_events eq a b) a = Some b"
    by (simp add: ev apply_events_append)
  define ns where "ns = map (\<lambda>t. fst t + s) (rev adds)"
  have ae: "add_events bb s adds = map (\<lambda>n. EvAdd (b ! n) (int n)) ns"
    using nth_b by (simp add: add_events_def ns_def)
  have sn: "sorted_wrt (<) ns"
  proof -
    have "sorted_wrt (<) (rev (map fst adds))"
      using or(3) by (simp add: sorted_wrt_rev)
    then have "sorted_wrt (<) (map (\<lambda>x. x + s) (rev (map fst adds)))"
      by (simp add: sorted_wrt_map)
    then show ?thesis by (simp add: ns_def rev_map comp_def)
  qed
  have "sync_events eq a b = map EvRemove rs @ map (\<lambda>n. EvAdd (b ! n) (int n)) ns"
    using ev ae or(1) by simp
  with or(2) sn have "\<exists>rs ns. sync_events eq a b = map EvRemove rs @ map (\<lambda>n. EvAdd (b ! n) (int n)) ns
      \<and> sorted_wrt (>) rs \<and> sorted_wrt (<) ns"
    by (intro exI[of _ rs] exI[of _ ns]) simp
  with rt show ?thesis by (rule conjI)
qed

text \<open>
  Witness: scenario S6 of the spec, \<open>[1,2,3,4,5]\<close> against \<open>[1,3,4,6,5]\<close>, compared with
  equality. The events are \<open>remove idx=1\<close> and \<open>add idx=3 value=6\<close>.
\<close>

theorem sync_roundtrip_witness:
  "sync_events (=) [1, 2, 3, 4, 5 :: nat] [1, 3, 4, 6, 5] = [EvRemove 1, EvAdd 6 3]
   \<and> apply_events (sync_events (=) [1, 2, 3, 4, 5 :: nat] [1, 3, 4, 6, 5]) [1, 2, 3, 4, 5]
       = Some [1, 3, 4, 6, 5]"
proof -
  have "sync_events (=) [1, 2, 3, 4, 5 :: nat] [1, 3, 4, 6, 5] = [EvRemove 1, EvAdd 6 3]"
    by code_simp
  moreover have "apply_events (sync_events (=) [1, 2, 3, 4, 5 :: nat] [1, 3, 4, 6, 5]) [1, 2, 3, 4, 5]
       = Some [1, 3, 4, 6, 5]"
    using sync_roundtrip[of "(=)" "[1, 2, 3, 4, 5 :: nat]" "[1, 3, 4, 6, 5]"] by simp
  ultimately show ?thesis by simp
qed

declare traverse.simps [simp del]

definition cached :: "client \<Rightarrow> nat set" where
  "cached s = snd ` set (cache s)"


definition vtargets :: "client \<Rightarrow> val list \<Rightarrow> nat list" where
  "vtargets s vs = filter (\<lambda>b. \<not> subscribed (heap s b)) (List.map_filter (getRefItem s) vs)"

definition targets :: "client \<Rightarrow> nat \<Rightarrow> nat list" where
  "targets s y = List.map_filter (getRefItem s) (children (heap s y))"









lemma getRefItem_cached: "getRefItem s v = Some b \<Longrightarrow> b \<in> cached s"
  using getRefItem_in_cache by (simp add: cached_def)

lemma set_vtargets_cached: "set (vtargets s vs) \<subseteq> cached s"
  by (induction vs) (auto simp: vtargets_def dest: getRefItem_cached split: option.splits)











inductive_set reach :: "client \<Rightarrow> nat \<Rightarrow> nat set" for s :: client and a :: nat where
  root: "a \<in> reach s a"
| step: "y \<in> reach s a \<Longrightarrow> b \<in> set (targets s y) \<Longrightarrow> \<not> subscribed (heap s b) \<Longrightarrow> b \<in> reach s a"











definition ci0 :: CacheItem where
  "ci0 = \<lparr>rid = [], ci_type = None, item = None, direct = 0, indirect = 0, subscribed = False,
           promise = None\<rparr>"

definition client0 :: client where
  "client0 = \<lparr>heap = (\<lambda>_. ci0), nextAddr = 0, cache = [], stale = None, connected = True,
     tryConnect = True, ws = True, connectPromise = True, connectCallback = False,
     callId = 0, waiting = [], requests = [], reqId = 1, namespace = ''resclient'', timers = [], emitted = [], sent = [],
     console = [], settled = [], returned = []\<rparr>"






section \<open>Materialising resources (\<open>_cacheResources\<close>)\<close>

text \<open>
  \<open>ci.item\<close> as a value: null before the item is set, the resource object after.
\<close>

definition itemval :: "client \<Rightarrow> nat \<Rightarrow> val" where
  "itemval s a = (case item (heap s a) of None \<Rightarrow> VPrim PNull | Some _ \<Rightarrow> VRes a (rid (heap s a)))"

text \<open>
  \<open>typeof v === 'object' && v !== null && v.rid\<close>: the RID of a resource reference (the
  empty string is not true). \<open>toVal\<close> keeps any other value as it is.
\<close>

definition ref_rid :: "jval \<Rightarrow> string option" where
  "ref_rid v = (case v of JObj act (Some r) \<Rightarrow> if r = [] then None else Some r | _ \<Rightarrow> None)"

definition toVal :: "jval \<Rightarrow> val" where
  "toVal v = (case v of JPrim p \<Rightarrow> VPrim p | JObj act r \<Rightarrow> VObj act r)"

text \<open>
  Modelled from the spec: the constructor and the setters of \<open>CacheItem\<close> are not in the
  sources. A new item has no type, no value, no reference and no subscription;
  \<open>setSubscribed\<close> sets the flag; \<open>setItem\<close> sets the value and the type, and the initial
  fetch is no longer outstanding; \<open>setPromise\<close> keeps the promise of the fetch while the
  item has no value.
\<close>

definition newCacheItem :: "string \<Rightarrow> CacheItem" where
  "newCacheItem r = \<lparr>rid = r, ci_type = None, item = None, direct = 0, indirect = 0,
     subscribed = False, promise = None\<rparr>"

definition setSubscribed :: "bool \<Rightarrow> CacheItem \<Rightarrow> CacheItem" where
  "setSubscribed b c = c\<lparr>subscribed := b\<rparr>"

definition setItem :: "item \<Rightarrow> restype \<Rightarrow> CacheItem \<Rightarrow> CacheItem" where
  "setItem it ty c = c\<lparr>item := Some it, ci_type := Some ty, promise := None\<rparr>"

definition setPromise :: "nat \<Rightarrow> CacheItem \<Rightarrow> CacheItem" where
  "setPromise n c = (if item c = None then c\<lparr>promise := Some n\<rparr> else c)"

text \<open>\<open>this.cache[rid] = new CacheItem(rid, this._unsubscribe)\<close>: the address and the state.\<close>

definition alloc :: "string \<Rightarrow> client \<Rightarrow> nat \<times> client" where
  "alloc r s =
     (nextAddr s,
      s\<lparr>heap := (heap s)(nextAddr s := newCacheItem r), nextAddr := nextAddr s + 1,
        cache := AList.update r (nextAddr s) (cache s)\<rparr>)"

text \<open>
  Modelled from the spec: the type factories (\<open>TypeList.getFactory\<close> and the default
  factories) are not in the sources; given a RID they construct the resource object of
  the kind, which holds no data before \<open>__init\<close>.
\<close>

definition factory :: "restype \<Rightarrow> item" where
  "factory ty = (case ty of typeModel \<Rightarrow> ModelItem [] | typeCollection \<Rightarrow> CollectionItem []
                 | typeError \<Rightarrow> ErrorItem None)"

text \<open>
  \<open>types.model.prepareData\<close> and \<open>types.collection.prepareData\<close>. \<open>this.cache[v.rid]\<close> of
  a RID that is not cached is undefined, and \<open>ci.addIndirect()\<close> throws a TypeError.
\<close>

fun prepareModel :: "(string \<times> jval) list \<Rightarrow> client \<Rightarrow> (string \<times> val) list result" where
  "prepareModel [] s = Ok [] s"
| "prepareModel ((k, v) # kvs) s =
     (case ref_rid v of
        None \<Rightarrow> bind (prepareModel kvs s) (\<lambda>o' s'. Ok ((k, toVal v) # o') s')
      | Some r \<Rightarrow>
          (case map_of (cache s) r of
             None \<Rightarrow> Throw TypeError s
           | Some a \<Rightarrow>
               bind (prepareModel kvs (upd a (addIndirect 1) s))
                 (\<lambda>o' s'. Ok ((k, itemval s a) # o') s')))"

fun prepareCollection :: "jval list \<Rightarrow> client \<Rightarrow> val list result" where
  "prepareCollection [] s = Ok [] s"
| "prepareCollection (v # vs) s =
     (case ref_rid v of
        None \<Rightarrow> bind (prepareCollection vs s) (\<lambda>o' s'. Ok (toVal v # o') s')
      | Some r \<Rightarrow>
          (case map_of (cache s) r of
             None \<Rightarrow> Throw TypeError s
           | Some a \<Rightarrow>
               bind (prepareCollection vs (upd a (addIndirect 1) s))
                 (\<lambda>o' s'. Ok (itemval s a # o') s')))"

text \<open>
  \<open>_createItems(refs, type)\<close>: the entries set aside for synchronisation, the entries left
  in \<open>refs\<close> (the source deletes the others from it) and the new state.
\<close>

fun createItems_loop :: "(string \<times> 'd) list \<Rightarrow> restype \<Rightarrow> client \<Rightarrow>
    (string \<times> 'd) list \<times> (string \<times> 'd) list \<times> client" where
  "createItems_loop [] ty s = ([], [], s)"
| "createItems_loop ((k, d) # refs) ty s =
     (let (a, s1) = (case map_of (cache s) k of
                       None \<Rightarrow> alloc k s
                     | Some a \<Rightarrow> (a, removeStale s k))
      in
        if item (heap s1 a) \<noteq> None then
          (if ci_type (heap s1 a) \<noteq> Some ty then
             createItems_loop refs ty (s1\<lparr>console := console s1 @ [''Resource type inconsistency'']\<rparr>)
           else
             (case createItems_loop refs ty s1 of (sy, re, s2) \<Rightarrow> ((k, d) # sy, re, s2)))
        else
          (case createItems_loop refs ty (upd a (setItem (factory ty) ty) s1) of
             (sy, re, s2) \<Rightarrow> (sy, (k, d) # re, s2)))"

definition createItems :: "(string \<times> 'd) list option \<Rightarrow> restype \<Rightarrow> client \<Rightarrow>
    (string \<times> 'd) list \<times> (string \<times> 'd) list \<times> client" where
  "createItems refs ty s = (case refs of None \<Rightarrow> ([], [], s) | Some l \<Rightarrow> createItems_loop l ty s)"

text \<open>
  \<open>_initItems(refs, type)\<close>, with \<open>type.prepareData\<close> followed by \<open>item.__init\<close> as the
  parameter \<open>prep\<close>. Modelled from the spec: \<open>__init\<close> of the resource objects is not in
  the sources; it populates the object with the prepared data.
\<close>

fun initItems :: "(string \<times> 'd) list \<Rightarrow> ('d \<Rightarrow> client \<Rightarrow> item result) \<Rightarrow> client \<Rightarrow> unit result" where
  "initItems [] prep s = Ok () s"
| "initItems ((k, d) # refs) prep s =
     (case map_of (cache s) k of
        None \<Rightarrow> Throw TypeError s
      | Some a \<Rightarrow>
          (case item (heap s a) of
             None \<Rightarrow> Throw TypeError s
           | Some _ \<Rightarrow>
               bind (prep d s) (\<lambda>it s1. initItems refs prep (upd a (\<lambda>c. c\<lparr>item := Some it\<rparr>) s1))))"

definition initModel :: "(string \<times> jval) list \<Rightarrow> client \<Rightarrow> item result" where
  "initModel d s = bind (prepareModel d s) (\<lambda>o' s'. Ok (ModelItem o') s')"

definition initCollection :: "jval list \<Rightarrow> client \<Rightarrow> item result" where
  "initCollection d s = bind (prepareCollection d s) (\<lambda>o' s'. Ok (CollectionItem o') s')"

definition initError :: "jval \<Rightarrow> client \<Rightarrow> item result" where
  "initError d s = Ok (ErrorItem (Some d)) s"

text \<open>\<open>_syncItems(refs, type)\<close>, with \<open>type.synchronize\<close> as the parameter \<open>sync\<close>.\<close>

fun syncItems :: "(string \<times> 'd) list \<Rightarrow> (nat \<Rightarrow> 'd \<Rightarrow> client \<Rightarrow> unit result) \<Rightarrow> client \<Rightarrow> unit result" where
  "syncItems [] sync s = Ok () s"
| "syncItems ((k, d) # refs) sync s =
     (case map_of (cache s) k of
        None \<Rightarrow> Throw TypeError s
      | Some a \<Rightarrow> bind (sync a d s) (\<lambda>_ s1. syncItems refs sync s1))"

section \<open>Events\<close>

text \<open>\<open>this.eventBus.emit(...)\<close>.\<close>

definition emit_ev :: "emit \<Rightarrow> client \<Rightarrow> client" where
  "emit_ev e s = s\<lparr>emitted := emitted s @ [e]\<rparr>"

definition resource_event :: "client \<Rightarrow> string \<Rightarrow> string \<Rightarrow> string" where
  "resource_event s r event = namespace s @ ''.resource.'' @ r @ ''.'' @ event"

text \<open>
  The first loop of \<open>_handleChangeEvent\<close>, over \<open>data.values\<close>: the values with the
  references resolved (\<open>None\<close> for undefined) and the map \<open>rm\<close> from RID to the number of
  references removed less the number added. \<open>rm_add\<close> is \<open>rm[rid]++\<close> or \<open>rm[rid]--\<close>,
  with the first write of a key at the end of the enumeration.
\<close>

definition rm_add :: "string \<Rightarrow> int \<Rightarrow> (string \<times> int) list \<Rightarrow> (string \<times> int) list" where
  "rm_add k d rm = (case map_of rm k of None \<Rightarrow> rm @ [(k, d)] | Some n \<Rightarrow> AList.update k (n + d) rm)"

definition rm_old :: "(string \<times> val) list \<Rightarrow> string \<Rightarrow> (string \<times> int) list \<Rightarrow> (string \<times> int) list" where
  "rm_old props k rm =
     (case map_of props k of Some (VRes a r) \<Rightarrow> rm_add r 1 rm | _ \<Rightarrow> rm)"

fun change_loop :: "client \<Rightarrow> (string \<times> val) list \<Rightarrow> (string \<times> jval) list \<Rightarrow> (string \<times> int) list \<Rightarrow>
    error + (string \<times> val option) list \<times> (string \<times> int) list" where
  "change_loop s props [] rm = Inr ([], rm)"
| "change_loop s props ((k, v) # vals) rm =
     (case (case v of
              JPrim p \<Rightarrow> Inr (Some (VPrim p), rm)
            | JObj act r \<Rightarrow>
                if act = Some ''delete'' then Inr (None, rm)
                else
                  (case ref_rid v of
                     Some r' \<Rightarrow>
                       (case map_of (cache s) r' of
                          None \<Rightarrow> Inl TypeError
                        | Some a \<Rightarrow> Inr (Some (itemval s a), rm_add r' (- 1) rm))
                   | None \<Rightarrow> Inl (Error ''Unsupported model change value: ''))) of
        Inl e \<Rightarrow> Inl e
      | Inr (nv, rm1) \<Rightarrow>
          (case change_loop s props vals (rm_old props k rm1) of
             Inl e \<Rightarrow> Inl e
           | Inr (nvs, rm2) \<Rightarrow> Inr ((k, nv) # nvs, rm2)))"

text \<open>The second loop, \<open>for (let rid in rm)\<close>.\<close>

fun rm_loop :: "(string \<times> int) list \<Rightarrow> client \<Rightarrow> unit result" where
  "rm_loop [] s = Ok () s"
| "rm_loop ((k, r) # rm) s =
     (case map_of (cache s) k of
        None \<Rightarrow> Throw TypeError s
      | Some a \<Rightarrow>
          if r > 0 then bind (tryDelete (upd a (removeIndirect r) s) a) (\<lambda>_ s1. rm_loop rm s1)
          else rm_loop rm (upd a (removeIndirect r) s))"

text \<open>
  Modelled from the spec: \<open>ResModel.__update(props)\<close> is not in the sources. It sets each
  property whose value differs (deleting it for undefined) and returns the previous values
  of the properties it changed, or null when it changed none.
\<close>

fun model_update :: "(string \<times> val) list \<Rightarrow> (string \<times> val option) list \<Rightarrow>
    (string \<times> val) list \<times> (string \<times> val option) list" where
  "model_update props [] = (props, [])"
| "model_update props ((k, nv) # vals) =
     (if map_of props k = nv then model_update props vals
      else
        (case model_update
                (case nv of None \<Rightarrow> AList.delete k props | Some v \<Rightarrow> AList.update k v props) vals of
           (props', changed) \<Rightarrow> (props', (k, map_of props k) # changed)))"

text \<open>
  \<open>_handleChangeEvent(cacheItem, event, data)\<close>. The parameter \<open>cr\<close> is the call
  \<open>this._cacheResources(data)\<close>.
\<close>

definition handleChangeEvent_with ::
  "(resources option \<Rightarrow> client \<Rightarrow> unit result) \<Rightarrow> client \<Rightarrow> nat \<Rightarrow> string \<Rightarrow> payload option \<Rightarrow>
   bool result" where
  "handleChangeEvent_with cr s a event data =
     (if ci_type (heap s a) \<noteq> Some typeModel then Ok False s
      else
        bind (cr (map_option ev_res data) s) (\<lambda>_ s1.
          (case data of
             None \<Rightarrow> Throw TypeError s1
           | Some d \<Rightarrow>
               (case item (heap s1 a) of
                  Some (ModelItem props) \<Rightarrow>
                    (case change_loop s1 props (ev_values d) [] of
                       Inl e \<Rightarrow> Throw e s1
                     | Inr (vals, rm) \<Rightarrow>
                         bind (rm_loop rm s1) (\<lambda>_ s2.
                           (case model_update props vals of
                              (props', changed) \<Rightarrow>
                                Ok True
                                  ((if changed \<noteq> [] then
                                      emit_ev (EmitResource (itemval s2 a)
                                        (resource_event s2 (rid (heap s2 a)) event) (DChanged changed))
                                    else id)
                                   (upd a (\<lambda>c. c\<lparr>item := Some (ModelItem props')\<rparr>) s2)))))
                | _ \<Rightarrow> Throw TypeError s1))))"

text \<open>
  Modelled from the spec: \<open>ResCollection.__add(item, idx)\<close> and \<open>__remove(idx)\<close> are not in
  the sources; the first inserts at \<open>idx\<close>, the second removes the element at \<open>idx\<close> and
  returns it (undefined when there is none).
\<close>

definition coll_add :: "val \<Rightarrow> nat \<Rightarrow> val list \<Rightarrow> val list" where
  "coll_add v idx xs = take idx xs @ v # drop idx xs"

definition coll_remove :: "nat \<Rightarrow> val list \<Rightarrow> val option \<times> val list" where
  "coll_remove idx xs =
     (if idx < length xs then (Some (xs ! idx), take idx xs @ drop (Suc idx) xs) else (None, xs))"

text \<open>\<open>_handleAddEvent(cacheItem, event, data)\<close>.\<close>

definition handleAddEvent_with ::
  "(resources option \<Rightarrow> client \<Rightarrow> unit result) \<Rightarrow> client \<Rightarrow> nat \<Rightarrow> string \<Rightarrow> payload option \<Rightarrow>
   bool result" where
  "handleAddEvent_with cr s a event data =
     (if ci_type (heap s a) \<noteq> Some typeCollection then Ok False s
      else
        (case data of
           None \<Rightarrow> Throw TypeError s
         | Some d \<Rightarrow>
             bind (case ref_rid (ev_value d) of
                     None \<Rightarrow> Ok (toVal (ev_value d)) s
                   | Some r \<Rightarrow>
                       bind (cr (Some (ev_res d)) s) (\<lambda>_ s1.
                         (case map_of (cache s1) r of
                            None \<Rightarrow> Throw TypeError s1
                          | Some b \<Rightarrow> Ok (itemval s1 b) (upd b (addIndirect 1) s1))))
               (\<lambda>v s2.
                  (case item (heap s2 a) of
                     Some (CollectionItem xs) \<Rightarrow>
                       Ok True
                         (emit_ev (EmitResource (itemval s2 a)
                            (resource_event s2 (rid (heap s2 a)) event) (DItemIdx (Some v) (ev_idx d)))
                          (upd a (\<lambda>c. c\<lparr>item := Some (CollectionItem (coll_add v (ev_idx d) xs))\<rparr>) s2))
                   | _ \<Rightarrow> Throw TypeError s2))))"

text \<open>\<open>_handleRemoveEvent(cacheItem, event, data)\<close>.\<close>

definition handleRemoveEvent :: "client \<Rightarrow> nat \<Rightarrow> string \<Rightarrow> payload option \<Rightarrow> bool result" where
  "handleRemoveEvent s a event data =
     (if ci_type (heap s a) \<noteq> Some typeCollection then Ok False s
      else
        (case data of
           None \<Rightarrow> Throw TypeError s
         | Some d \<Rightarrow>
             (case item (heap s a) of
                Some (CollectionItem xs) \<Rightarrow>
                  (case coll_remove (ev_idx d) xs of
                     (removed, xs') \<Rightarrow>
                       (let s1 = emit_ev (EmitResource (itemval s a)
                                   (resource_event s (rid (heap s a)) event) (DItemIdx removed (ev_idx d)))
                                  (upd a (\<lambda>c. c\<lparr>item := Some (CollectionItem xs')\<rparr>) s)
                        in
                          (case removed of
                             Some (VRes b r) \<Rightarrow>
                               (case map_of (cache s1) r of
                                  None \<Rightarrow> Throw (Error ''Removed model is not in cache'') s1
                                | Some c \<Rightarrow>
                                    bind (tryDelete (upd c (removeIndirect 1) s1) c)
                                      (\<lambda>_ s2. Ok True s2))
                           | _ \<Rightarrow> Ok True s1)))
              | _ \<Rightarrow> Throw TypeError s)))"

text \<open>\<open>_handleUnsubscribeEvent(cacheItem, event)\<close>.\<close>

definition handleUnsubscribeEvent :: "client \<Rightarrow> nat \<Rightarrow> string \<Rightarrow> bool result" where
  "handleUnsubscribeEvent s a event =
     bind (tryDelete (upd a (setSubscribed False) s) a) (\<lambda>_ s1.
       Ok True (emit_ev (EmitResource (itemval s1 a)
                  (resource_event s1 (rid (heap s1 a)) event) (DItem (itemval s1 a))) s1))"

section \<open>Synchronisation\<close>

text \<open>
  The events that \<open>_syncModel\<close> and \<open>_syncCollection\<close> synthesise carry no resources
  (\<open>{ values: data }\<close>, \<open>{ value: data[n], idx: idx }\<close>): the call
  \<open>this._cacheResources(data)\<close> inside the handlers finds no \<open>models\<close>, \<open>collections\<close> or
  \<open>errors\<close> and returns.
\<close>

definition no_resources :: resources where
  "no_resources = \<lparr>models = None, collections = None, errors = None\<rparr>"

definition cacheNothing :: "resources option \<Rightarrow> client \<Rightarrow> unit result" where
  "cacheNothing r s = Ok () s"

text \<open>\<open>_syncModel(cacheItem, data)\<close>.\<close>

definition syncModel :: "nat \<Rightarrow> (string \<times> jval) list \<Rightarrow> client \<Rightarrow> unit result" where
  "syncModel a d s =
     bind (handleChangeEvent_with cacheNothing s a ''change''
             (Some \<lparr>ev_values = d, ev_value = JPrim PNull, ev_idx = 0, ev_res = no_resources\<rparr>))
       (\<lambda>_ s1. Ok () s1)"

text \<open>
  \<open>_syncCollection(cacheItem, data)\<close>. \<open>b\<close> is \<open>data\<close> with the references resolved
  (\<open>this.cache[v.rid].item\<close>, a TypeError when the RID is not cached). \<open>===\<close> holds between
  equal primitives and between a resource object and itself, never between two objects
  parsed from JSON. The callbacks run in the order \<open>_patchDiff\<close> calls them.
\<close>

fun resolve_all :: "client \<Rightarrow> jval list \<Rightarrow> error + val list" where
  "resolve_all s [] = Inr []"
| "resolve_all s (v # vs) =
     (case (case ref_rid v of
              None \<Rightarrow> Inr (toVal v)
            | Some r \<Rightarrow> (case map_of (cache s) r of None \<Rightarrow> Inl TypeError | Some a \<Rightarrow> Inr (itemval s a))) of
        Inl e \<Rightarrow> Inl e
      | Inr x \<Rightarrow> (case resolve_all s vs of Inl e \<Rightarrow> Inl e | Inr xs \<Rightarrow> Inr (x # xs)))"

definition strict_eq :: "val \<Rightarrow> val \<Rightarrow> bool" where
  "strict_eq x y = (x = y \<and> (case x of VObj act r \<Rightarrow> False | _ \<Rightarrow> True))"

fun run_calls :: "val diff_call list \<Rightarrow> nat \<Rightarrow> jval list \<Rightarrow> client \<Rightarrow> unit result" where
  "run_calls [] a d s = Ok () s"
| "run_calls (OnKeep x m n idx # cs) a d s = run_calls cs a d s"
| "run_calls (OnAdd x n idx # cs) a d s =
     bind (handleAddEvent_with cacheNothing s a ''add''
             (Some \<lparr>ev_values = [], ev_value = d ! n, ev_idx = nat idx, ev_res = no_resources\<rparr>))
       (\<lambda>_ s1. run_calls cs a d s1)"
| "run_calls (OnRemove x m idx # cs) a d s =
     bind (handleRemoveEvent s a ''remove''
             (Some \<lparr>ev_values = [], ev_value = JPrim PNull, ev_idx = idx, ev_res = no_resources\<rparr>))
       (\<lambda>_ s1. run_calls cs a d s1)"

definition syncCollection :: "nat \<Rightarrow> jval list \<Rightarrow> client \<Rightarrow> unit result" where
  "syncCollection a d s =
     (case item (heap s a) of
        Some (CollectionItem xs) \<Rightarrow>
          (case resolve_all s d of
             Inl e \<Rightarrow> Throw e s
           | Inr b \<Rightarrow> run_calls (patchDiff strict_eq xs b) a d s)
      | _ \<Rightarrow> Throw TypeError s)"

definition syncError :: "nat \<Rightarrow> jval \<Rightarrow> client \<Rightarrow> unit result" where
  "syncError a d s = Ok () s"

text \<open>\<open>_cacheResources(resources)\<close>: create, then initialise, then synchronise.\<close>

definition cacheResources :: "resources option \<Rightarrow> client \<Rightarrow> unit result" where
  "cacheResources res s =
     (case res of
        None \<Rightarrow> Ok () s
      | Some r \<Rightarrow>
          (case createItems (models r) typeModel s of (syncM, restM, s1) \<Rightarrow>
          (case createItems (collections r) typeCollection s1 of (syncC, restC, s2) \<Rightarrow>
          (case createItems (errors r) typeError s2 of (syncE, restE, s3) \<Rightarrow>
             bind (initItems restM initModel s3) (\<lambda>_ s4.
             bind (initItems restC initCollection s4) (\<lambda>_ s5.
             bind (initItems restE initError s5) (\<lambda>_ s6.
             bind (syncItems syncM syncModel s6) (\<lambda>_ s7.
             bind (syncItems syncC syncCollection s7) (\<lambda>_ s8.
             syncItems syncE syncError s8)))))))))"

definition handleChangeEvent :: "client \<Rightarrow> nat \<Rightarrow> string \<Rightarrow> payload option \<Rightarrow> bool result" where
  "handleChangeEvent = handleChangeEvent_with cacheResources"

definition handleAddEvent :: "client \<Rightarrow> nat \<Rightarrow> string \<Rightarrow> payload option \<Rightarrow> bool result" where
  "handleAddEvent = handleAddEvent_with cacheResources"

section \<open>The event pipeline (\<open>_handleEvent\<close>)\<close>

text \<open>\<open>str.lastIndexOf('.')\<close>: -1 when there is none.\<close>

fun lastIndexOf_from :: "string \<Rightarrow> char \<Rightarrow> nat \<Rightarrow> int \<Rightarrow> int" where
  "lastIndexOf_from [] c i found = found"
| "lastIndexOf_from (x # xs) c i found = lastIndexOf_from xs c (i + 1) (if x = c then int i else found)"

definition lastIndexOf :: "string \<Rightarrow> char \<Rightarrow> int" where
  "lastIndexOf str c = lastIndexOf_from str c 0 (- 1)"

definition handleEvent :: "client \<Rightarrow> string \<Rightarrow> payload option \<Rightarrow> unit result" where
  "handleEvent s ev data =
     (let idx = lastIndexOf ev CHR ''.'' in
      if idx < 0 \<or> idx = int (length ev) - 1 then Throw (Error (''Malformed event name: '' @ ev)) s
      else
        (let r = take (nat idx) ev in
         case map_of (cache s) r of
           None \<Rightarrow> Throw (Error ''Resource not found in cache'') s
         | Some a \<Rightarrow>
             (let event = drop (nat idx + 1) ev in
              bind (if event = ''change'' then handleChangeEvent s a event data
                    else if event = ''add'' then handleAddEvent s a event data
                    else if event = ''remove'' then handleRemoveEvent s a event data
                    else if event = ''unsubscribe'' then handleUnsubscribeEvent s a event
                    else Ok False s)
                (\<lambda>handled s1.
                   if \<not> handled then
                     Ok () (emit_ev (EmitResource (itemval s1 a) (resource_event s1 r event) (DRaw data)) s1)
                   else Ok () s1))))"

section \<open>Requests and responses\<close>

text \<open>The promise handed to the caller of call number \<open>n\<close> settles.\<close>

definition ret :: "nat \<Rightarrow> outcome \<Rightarrow> client \<Rightarrow> client" where
  "ret n out s = s\<lparr>returned := returned s @ [(n, out)]\<rparr>"

text \<open>\<open>_handleFailedSubscribe(cacheItem)\<close>.\<close>

definition handleFailedSubscribe :: "client \<Rightarrow> nat \<Rightarrow> unit result" where
  "handleFailedSubscribe s a = tryDelete (upd a (setSubscribed False) s) a"

text \<open>
  The \<open>catch\<close> of \<open>_subscribe(ci, throwError)\<close>, entered with the reason \<open>err\<close>:
  \<open>_handleFailedSubscribe(ci)\<close>, then the reason is thrown again when \<open>throwError\<close> is set.
\<close>

definition subscribe_failed :: "nat \<Rightarrow> nat \<Rightarrow> bool \<Rightarrow> outcome \<Rightarrow> client \<Rightarrow> client" where
  "subscribe_failed n a throwError err s =
     (case handleFailedSubscribe s a of
        Throw e s1 \<Rightarrow> ret n (Rejected e) s1
      | Ok _ s1 \<Rightarrow> if throwError then ret n err s1 else ret n Resolved s1)"

text \<open>
  A response \<open>result\<close>: its \<open>rid\<close> (read by \<open>create\<close>) and its resources.
\<close>

record response =
  res_rid :: "string option"
  res_data :: resources

text \<open>
  What is chained to the promise of a request runs when the promise is resolved
  (\<open>on_resolve\<close>) or rejected (\<open>on_reject\<close>). An exception in a callback rejects the next
  promise of the chain; it does not leave \<open>_receive\<close>.
\<close>

definition on_reject :: "nat \<Rightarrow> cont \<Rightarrow> outcome \<Rightarrow> client \<Rightarrow> client" where
  "on_reject n k err s =
     (case k of
        KPlain \<Rightarrow> ret n err s
      | KNew \<Rightarrow> ret n err s
      | KSubscribe a throwError \<Rightarrow> subscribe_failed n a throwError err s
      | KUnsubscribe a \<Rightarrow>
          (case tryDelete s a of Ok _ s1 \<Rightarrow> ret n Resolved s1 | Throw e s1 \<Rightarrow> ret n (Rejected e) s1))"

definition on_resolve :: "nat \<Rightarrow> cont \<Rightarrow> response option \<Rightarrow> client \<Rightarrow> client" where
  "on_resolve n k res s =
     (case k of
        KPlain \<Rightarrow> ret n Resolved s
      | KNew \<Rightarrow>
          (case cacheResources (map_option res_data res) s of
             Throw e s1 \<Rightarrow> ret n (Rejected e) s1
           | Ok _ s1 \<Rightarrow>
               (case (case res of None \<Rightarrow> None
                      | Some r \<Rightarrow> (case res_rid r of None \<Rightarrow> None | Some k \<Rightarrow> map_of (cache s1) k)) of
                  None \<Rightarrow> ret n (Rejected TypeError) s1
                | Some a \<Rightarrow>
                    ret n (ResolvedWith (itemval s1 a)) (upd a (setSubscribed True) s1)))
      | KSubscribe a throwError \<Rightarrow>
          (case cacheResources (map_option res_data res) s of
             Throw e s1 \<Rightarrow> subscribe_failed n a throwError (Rejected e) s1
           | Ok _ s1 \<Rightarrow> ret n (ResolvedWith (itemval s1 a)) s1)
      | KUnsubscribe a \<Rightarrow>
          (case tryDelete (upd a (setSubscribed False) s) a of
             Ok _ s1 \<Rightarrow> ret n Resolved s1
           | Throw e s1 \<Rightarrow> on_reject n (KUnsubscribe a) (Rejected e) s1))"

text \<open>
  \<open>_sendNow(method, params)\<close>: the request is stored under the next id, then sent. With
  \<open>this.ws\<close> null the executor throws a TypeError after it stored the request, and the
  promise is rejected: the stored \<open>resolve\<close> and \<open>reject\<close> have no effect any more.
\<close>

definition sendNow :: "nat \<Rightarrow> string \<Rightarrow> jval option \<Rightarrow> cont \<Rightarrow> client \<Rightarrow> client" where
  "sendNow n m params k s =
     (let s1 = s\<lparr>reqId := reqId s + 1,
                 requests := AList.update (reqId s)
                   \<lparr>req_method = m, req_params = params, req_cont = k, req_call = n,
                    req_done = \<not> ws s\<rparr> (requests s)\<rparr>
      in
        if ws s1 then s1\<lparr>sent := sent s1 @ [(reqId s, m, params)]\<rparr>
        else on_reject n k (Rejected TypeError)
               (s1\<lparr>settled := settled s1 @ [(reqId s, Rejected TypeError)]\<rparr>))"

text \<open>
  \<open>connect()\<close>. A new promise takes the place of \<open>connectCallback\<close>: what was chained to
  a promise that was never settled stays unsettled for ever.
\<close>

definition connect :: "client \<Rightarrow> client" where
  "connect s =
     (if connectPromise s then s\<lparr>tryConnect := True\<rparr>
      else s\<lparr>tryConnect := True, connectPromise := True, connectCallback := True, ws := True,
             waiting := []\<rparr>)"

text \<open>
  \<open>_send(action, rid, method, params)\<close>: the number of the call, by which \<open>returned\<close>
  tells how its promise ended. \<open>method\<close> is \<open>None\<close> for null or undefined. Without a
  connection the send is chained to the connect promise: it waits while that promise is
  pending (\<open>connectCallback\<close> is set) and runs at once when the promise is resolved.
\<close>

definition send :: "string \<Rightarrow> string \<Rightarrow> string option \<Rightarrow> jval option \<Rightarrow> cont \<Rightarrow> client \<Rightarrow> nat result" where
  "send action r meth params k s =
     (if r = [] then Throw (Error ''Invalid resource ID'') s
      else if meth = Some [] then Throw (Error ''Invalid method'') s
      else
        (let m = action @ ''.'' @ r @ (case meth of None \<Rightarrow> [] | Some x \<Rightarrow> ''.'' @ x);
             n = callId s;
             s1 = s\<lparr>callId := n + 1\<rparr>
         in
           if connected s1 then Ok n (sendNow n m params k s1)
           else
             (let s2 = connect s1 in
              if connectCallback s2 then Ok n (s2\<lparr>waiting := waiting s2 @ [(n, m, params, k)]\<rparr>)
              else Ok n (sendNow n m params k s2))))"

text \<open>\<open>_connectResolve()\<close> and \<open>_connectReject(e)\<close>, with what is chained to the promise.\<close>

fun send_waiting :: "(nat \<times> string \<times> jval option \<times> cont) list \<Rightarrow> client \<Rightarrow> client" where
  "send_waiting [] s = s"
| "send_waiting ((n, m, params, k) # w) s = send_waiting w (sendNow n m params k s)"

fun reject_waiting :: "(nat \<times> string \<times> jval option \<times> cont) list \<Rightarrow> string \<Rightarrow> client \<Rightarrow> client" where
  "reject_waiting [] code s = s"
| "reject_waiting ((n, m, params, k) # w) code s =
     reject_waiting w code (on_reject n k (RejectedWith code) s)"

definition connectResolve :: "client \<Rightarrow> client" where
  "connectResolve s =
     (if connectCallback s then
        send_waiting (waiting s) (s\<lparr>connectCallback := False, waiting := []\<rparr>)
      else s)"

definition connectReject :: "string \<Rightarrow> client \<Rightarrow> client" where
  "connectReject code s =
     (let s1 = s\<lparr>connectPromise := False, ws := False\<rparr> in
      if connectCallback s1 then
        reject_waiting (waiting s1) code (s1\<lparr>connectCallback := False, waiting := []\<rparr>)
      else s1)"

text \<open>\<open>disconnect()\<close> and \<open>_handleOnerror(e)\<close>.\<close>

definition disconnect :: "client \<Rightarrow> client" where
  "disconnect s =
     (let s1 = s\<lparr>tryConnect := False\<rparr> in
      if ws s1 then connectReject ''system.disconnect'' s1 else s1)"

definition handleOnerror :: "client \<Rightarrow> client" where
  "handleOnerror s = connectReject ''system.connectionError'' s"

text \<open>\<open>_subscribe(ci, throwError)\<close>.\<close>

definition subscribe :: "nat \<Rightarrow> bool \<Rightarrow> client \<Rightarrow> nat result" where
  "subscribe a throwError s =
     send ''subscribe'' (rid (heap s a)) None None (KSubscribe a throwError)
       (removeStale (upd a (setSubscribed True) s) (rid (heap s a)))"

text \<open>
  \<open>get(rid)\<close>: for a RID that is not cached, the number of the call whose promise it
  returns. For a cached RID it returns \<open>ci.promise\<close> or a promise resolved with \<open>ci.item\<close>
  and changes nothing.
\<close>

definition get :: "string \<Rightarrow> client \<Rightarrow> nat option result" where
  "get r s =
     (case map_of (cache s) r of
        Some a \<Rightarrow> Ok (promise (heap s a)) s
      | None \<Rightarrow>
          (case alloc r s of
             (a, s1) \<Rightarrow> bind (subscribe a True s1) (\<lambda>n s2. Ok (Some n) (upd a (setPromise n) s2))))"

text \<open>\<open>call\<close>, \<open>authenticate\<close>, \<open>create\<close> and \<open>setModel\<close>.\<close>

definition call :: "string \<Rightarrow> string option \<Rightarrow> jval option \<Rightarrow> client \<Rightarrow> nat result" where
  "call r meth params s =
     send ''call'' r (Some (case meth of None \<Rightarrow> [] | Some m \<Rightarrow> m)) params KPlain s"

definition authenticate :: "string \<Rightarrow> string option \<Rightarrow> jval option \<Rightarrow> client \<Rightarrow> nat result" where
  "authenticate r meth params s =
     send ''auth'' r (Some (case meth of None \<Rightarrow> [] | Some m \<Rightarrow> m)) params KPlain s"

definition create :: "string \<Rightarrow> jval option \<Rightarrow> client \<Rightarrow> nat result" where
  "create r params s = send ''new'' r None params KNew s"

definition setModel :: "string \<Rightarrow> jval option \<Rightarrow> client \<Rightarrow> nat result" where
  "setModel r props s = send ''call'' r (Some ''set'') props KPlain s"

text \<open>
  \<open>_subscribeReferred(ci)\<close> and \<open>_unsubscribe(ci)\<close>, the callback that a \<open>CacheItem\<close> calls
  to ask for its unsubscription.
\<close>

fun subscribe_stale_refs :: "(string \<times> RefState) list \<Rightarrow> client \<Rightarrow> unit result" where
  "subscribe_stale_refs [] s = Ok () s"
| "subscribe_stale_refs ((k, r) # refs) s =
     (if st r = stateStale then bind (subscribe (ci r) False s) (\<lambda>_ s1. subscribe_stale_refs refs s1)
      else subscribe_stale_refs refs s)"

definition subscribeReferred :: "nat \<Rightarrow> client \<Rightarrow> unit result" where
  "subscribeReferred a s =
     (case getRefState (upd a (\<lambda>c. c\<lparr>subscribed := False\<rparr>) s) a of
        Inl e \<Rightarrow> Throw e (upd a (\<lambda>c. c\<lparr>subscribed := False\<rparr>) s)
      | Inr refs \<Rightarrow> subscribe_stale_refs refs (upd a (\<lambda>c. c\<lparr>subscribed := True\<rparr>) s))"

definition unsubscribe :: "nat \<Rightarrow> client \<Rightarrow> unit result" where
  "unsubscribe a s =
     (if \<not> subscribed (heap s a) then
        (case stale s of
           None \<Rightarrow> Ok () s
         | Some l \<Rightarrow> if rid (heap s a) \<in> set l then tryDelete s a else Ok () s)
      else
        bind (subscribeReferred a s) (\<lambda>_ s1.
          bind (send ''unsubscribe'' (rid (heap s1 a)) None None (KUnsubscribe a) s1)
            (\<lambda>_ s2. Ok () s2)))"

text \<open>\<open>_subscribeToStale(rid)\<close> and \<open>_subscribeToAllStale()\<close>.\<close>

definition subscribeToStale :: "string \<Rightarrow> client \<Rightarrow> unit result" where
  "subscribeToStale r s =
     (if \<not> connected s then Ok () s
      else
        (case stale s of
           None \<Rightarrow> Ok () s
         | Some l \<Rightarrow>
             if r \<notin> set l then Ok () s
             else
               (case map_of (cache s) r of
                  None \<Rightarrow> Throw TypeError s
                | Some a \<Rightarrow> bind (subscribe a False s) (\<lambda>_ s1. Ok () s1))))"

fun subscribeToAllStale_loop :: "string list \<Rightarrow> client \<Rightarrow> unit result" where
  "subscribeToAllStale_loop [] s = Ok () s"
| "subscribeToAllStale_loop (r # rs) s =
     bind (subscribeToStale r s) (\<lambda>_ s1. subscribeToAllStale_loop rs s1)"

definition subscribeToAllStale :: "client \<Rightarrow> unit result" where
  "subscribeToAllStale s =
     (case stale s of None \<Rightarrow> Ok () s | Some l \<Rightarrow> subscribeToAllStale_loop l s)"

section \<open>The transport\<close>

text \<open>
  \<open>_handleOnopen(e)\<close>, without an \<open>onConnect\<close> callback. An exception in the \<open>then\<close> is
  caught by the \<open>catch\<close>, which closes the socket.
\<close>

definition handleOnopen :: "client \<Rightarrow> client" where
  "handleOnopen s =
     (case subscribeToAllStale (s\<lparr>connected := True\<rparr>) of
        Throw e s1 \<Rightarrow> s1
      | Ok _ s1 \<Rightarrow> connectResolve (emit_ev (EmitClient ''connect'' DNone) s1))"

text \<open>
  \<open>_handleOnclose(e)\<close>. The loop \<open>for (let rid in this.cache)\<close> does not visit a key that
  was deleted before its turn.
\<close>

fun onclose_loop :: "string list \<Rightarrow> client \<Rightarrow> unit result" where
  "onclose_loop [] s = Ok () s"
| "onclose_loop (r # rs) s =
     (case map_of (cache s) r of
        None \<Rightarrow> onclose_loop rs s
      | Some a \<Rightarrow>
          if subscribed (heap s a) then
            bind (tryDelete (addStale (upd a (setSubscribed False) s) r) a)
              (\<lambda>_ s1. onclose_loop rs s1)
          else onclose_loop rs s)"

definition handleOnclose :: "client \<Rightarrow> unit result" where
  "handleOnclose s =
     bind (if connected s then
             bind (onclose_loop (map fst (cache s))
                     (s\<lparr>connectPromise := False, ws := False, connected := False\<rparr>))
               (\<lambda>_ s1. Ok () (emit_ev (EmitClient ''close'' DNone) s1))
           else Ok () (s\<lparr>connectPromise := False, ws := False\<rparr>))
       (\<lambda>_ s2.
          (let s3 = s2\<lparr>tryConnect := (cache s2 \<noteq> [] \<and> tryConnect s2)\<rparr> in
           Ok () (if tryConnect s3 then s3\<lparr>timers := timers s3 @ [Reconnect]\<rparr> else s3)))"

text \<open>
  \<open>_handleErrorResponse(req, data)\<close> and \<open>_handleSuccessResponse(req, data)\<close>: the error
  is emitted as the client's \<open>error\<close> event, then the promise of the request is settled
  (unless it was settled when the request was stored).
\<close>

definition handleErrorResponse :: "nat \<Rightarrow> request \<Rightarrow> string \<Rightarrow> client \<Rightarrow> client" where
  "handleErrorResponse n req code s =
     (let s1 = emit_ev (EmitClient ''error'' (DError code)) s;
          s2 = s1\<lparr>settled := settled s1 @ [(n, RejectedWith code)]\<rparr>
      in if req_done req then s1
         else on_reject (req_call req) (req_cont req) (RejectedWith code) s2)"

definition handleSuccessResponse :: "nat \<Rightarrow> request \<Rightarrow> response option \<Rightarrow> client \<Rightarrow> client" where
  "handleSuccessResponse n req res s =
     (if req_done req then s
      else on_resolve (req_call req) (req_cont req) res
             (s\<lparr>settled := settled s @ [(n, Resolved)]\<rparr>))"

text \<open>
  \<open>_receive(json)\<close>, on the parsed message: a response with a result, a response with an
  error, an event, or a message with neither an \<open>id\<close> nor an \<open>event\<close>.
\<close>

datatype message =
    MResult nat "response option"
  | MError nat string
  | MEvent string "payload option"
  | MOther

definition receive :: "message \<Rightarrow> client \<Rightarrow> unit result" where
  "receive msg s =
     (case msg of
        MResult n res \<Rightarrow>
          (case map_of (requests s) n of
             None \<Rightarrow> Throw (Error ''Server response without matching request'') s
           | Some req \<Rightarrow>
               Ok () (handleSuccessResponse n req res (s\<lparr>requests := AList.delete n (requests s)\<rparr>)))
      | MError n code \<Rightarrow>
          (case map_of (requests s) n of
             None \<Rightarrow> Throw (Error ''Server response without matching request'') s
           | Some req \<Rightarrow>
               Ok () (handleErrorResponse n req code (s\<lparr>requests := AList.delete n (requests s)\<rparr>)))
      | MEvent ev data \<Rightarrow> handleEvent s ev data
      | MOther \<Rightarrow> Throw (Error ''Invalid message from server'') s)"

text \<open>The callbacks given to \<open>setTimeout\<close> by \<open>_setStale\<close> and \<open>_reconnect\<close>.\<close>

definition fire :: "timer \<Rightarrow> client \<Rightarrow> unit result" where
  "fire t s =
     (case t of
        SubscribeToStale r \<Rightarrow> subscribeToStale r s
      | Reconnect \<Rightarrow> Ok () (if tryConnect s then connect s else s))"

text \<open>
  \<open>resourceOn(rid, events, handler)\<close> and \<open>resourceOff(rid, events, handler)\<close>. Modelled
  from the spec: \<open>CacheItem.addDirect\<close> and \<open>CacheItem.removeDirect\<close> are not in the
  sources; the first increments \<open>direct\<close>, the second decrements it and invokes the
  unsubscribe callback when the count falls to zero.
\<close>

definition resourceOn :: "string \<Rightarrow> client \<Rightarrow> unit result" where
  "resourceOn r s =
     (case map_of (cache s) r of
        None \<Rightarrow> Throw (Error ''Resource not found in cache'') s
      | Some a \<Rightarrow> Ok () (upd a (\<lambda>c. c\<lparr>direct := direct c + 1\<rparr>) s))"

definition resourceOff :: "string \<Rightarrow> client \<Rightarrow> unit result" where
  "resourceOff r s =
     (case map_of (cache s) r of
        None \<Rightarrow> Throw (Error ''Resource not found in cache'') s
      | Some a \<Rightarrow>
          (let s1 = upd a (\<lambda>c. c\<lparr>direct := direct c - 1\<rparr>) s in
           if direct (heap s1 a) = 0 then unsubscribe a s1 else Ok () s1))"

section \<open>Executions\<close>

text \<open>
  The client runs one handler turn at a time. A turn is a call of the public interface
  (\<open>get\<close>, \<open>call\<close>, \<open>resourceOn\<close>, \<open>disconnect\<close>), the callback \<open>_unsubscribe\<close> called by a
  cache item (given by the RID under which the item was cached when the callback was
  bound), a message of the server, \<open>onclose\<close> of the socket, or a timer. An exception
  ends the turn and leaves the state as it is then.
\<close>

definition state_of :: "'a result \<Rightarrow> client" where
  "state_of r = (case r of Ok x s \<Rightarrow> s | Throw e s \<Rightarrow> s)"


datatype turn =
    Get string
  | Call string string
  | On string
  | Unsubscribe nat
  | Recv message
  | Close
  | Disconnect
  | Fire timer

definition step :: "turn \<Rightarrow> client \<Rightarrow> client" where
  "step t s =
     (case t of
        Get r \<Rightarrow> state_of (get r s)
      | Call r m \<Rightarrow> state_of (call r (Some m) None s)
      | On r \<Rightarrow> state_of (resourceOn r s)
      | Unsubscribe a \<Rightarrow> state_of (unsubscribe a s)
      | Recv m \<Rightarrow> state_of (receive m s)
      | Close \<Rightarrow> state_of (handleOnclose s)
      | Disconnect \<Rightarrow> disconnect s
      | Fire t \<Rightarrow> state_of (fire t s))"

definition run :: "turn list \<Rightarrow> client \<Rightarrow> client" where
  "run ts s = fold step ts s"

text \<open>Whether the RID is cached, and the cache item it is cached as.\<close>

definition is_cached :: "client \<Rightarrow> string \<Rightarrow> bool" where
  "is_cached s r = (map_of (cache s) r \<noteq> None)"


definition is_stale :: "client \<Rightarrow> string \<Rightarrow> bool" where
  "is_stale s r = (case stale s of None \<Rightarrow> False | Some l \<Rightarrow> r \<in> set l)"

section \<open>Events the client does not process, and protocol violations\<close>

lemma lastIndexOf_from_notin:
  "c \<notin> set xs \<Longrightarrow> lastIndexOf_from xs c i found = found"
  by (induction xs arbitrary: i) auto

lemma lastIndexOf_from_append:
  "lastIndexOf_from (xs @ ys) c i found =
     lastIndexOf_from ys c (i + length xs) (lastIndexOf_from xs c i found)"
  by (induction xs arbitrary: i found) auto

lemma lastIndexOf_last:
  "c \<notin> set ev \<Longrightarrow> lastIndexOf (r @ c # ev) c = int (length r)"
  by (simp add: lastIndexOf_def lastIndexOf_from_append lastIndexOf_from_notin)



text \<open>
  An event \<open>rid.event\<close> whose event part holds no dot is given to the handler of the
  event part, with the item cached under \<open>rid\<close>.
\<close>

lemma handleEvent_split:
  assumes "CHR ''.'' \<notin> set event" and "event \<noteq> []" and "map_of (cache s) r = Some a"
  shows "handleEvent s (r @ CHR ''.'' # event) data =
     bind (if event = ''change'' then handleChangeEvent s a event data
           else if event = ''add'' then handleAddEvent s a event data
           else if event = ''remove'' then handleRemoveEvent s a event data
           else if event = ''unsubscribe'' then handleUnsubscribeEvent s a event
           else Ok False s)
       (\<lambda>handled s1.
          if \<not> handled then
            Ok () (emit_ev (EmitResource (itemval s1 a) (resource_event s1 r event) (DRaw data)) s1)
          else Ok () s1)"
  using assms by (simp add: handleEvent_def lastIndexOf_last Let_def)

text \<open>The event left unprocessed: it is emitted with the payload as it came.\<close>

definition unprocessed :: "client \<Rightarrow> nat \<Rightarrow> string \<Rightarrow> string \<Rightarrow> payload option \<Rightarrow> client" where
  "unprocessed s a r event data =
     emit_ev (EmitResource (itemval s a) (resource_event s r event) (DRaw data)) s"

lemma unprocessed_frame:
  "heap (unprocessed s a r event data) = heap s \<and> cache (unprocessed s a r event data) = cache s
   \<and> stale (unprocessed s a r event data) = stale s
   \<and> emitted (unprocessed s a r event data) =
       emitted s @ [EmitResource (itemval s a) (resource_event s r event) (DRaw data)]"
  by (simp add: unprocessed_def emit_ev_def)

text \<open>
  Claim C10. A \<open>change\<close> event for a cached resource that is not a model, and an \<open>add\<close>
  or \<open>remove\<close> event for a cached resource that is not a collection, changes neither the
  heap of cache items (values, reference counts), nor the cache, nor the stale set: the
  state after the message is the state before it with one more emitted event, the
  resource event of that name with the payload as it came.
\<close>

theorem wrong_type_event_unprocessed:
  assumes "map_of (cache s) r = Some a"
  shows "(ci_type (heap s a) \<noteq> Some typeModel \<longrightarrow>
            receive (MEvent (r @ ''.change'') data) s = Ok () (unprocessed s a r ''change'' data))
       \<and> (ci_type (heap s a) \<noteq> Some typeCollection \<longrightarrow>
            receive (MEvent (r @ ''.add'') data) s = Ok () (unprocessed s a r ''add'' data)
          \<and> receive (MEvent (r @ ''.remove'') data) s = Ok () (unprocessed s a r ''remove'' data))
       \<and> heap (unprocessed s a r event data) = heap s
       \<and> cache (unprocessed s a r event data) = cache s
       \<and> stale (unprocessed s a r event data) = stale s
       \<and> emitted (unprocessed s a r event data) =
           emitted s @ [EmitResource (itemval s a) (resource_event s r event) (DRaw data)]"
proof -
  have c: "receive (MEvent (r @ ''.change'') data) s = Ok () (unprocessed s a r ''change'' data)"
    if "ci_type (heap s a) \<noteq> Some typeModel"
    using that handleEvent_split[OF _ _ assms, of "''change''" data]
    by (simp add: receive_def handleChangeEvent_def handleChangeEvent_with_def bind_def
        unprocessed_def)
  have ad: "receive (MEvent (r @ ''.add'') data) s = Ok () (unprocessed s a r ''add'' data)"
    if "ci_type (heap s a) \<noteq> Some typeCollection"
    using that handleEvent_split[OF _ _ assms, of "''add''" data]
    by (simp add: receive_def handleAddEvent_def handleAddEvent_with_def bind_def
        unprocessed_def)
  have re: "receive (MEvent (r @ ''.remove'') data) s = Ok () (unprocessed s a r ''remove'' data)"
    if "ci_type (heap s a) \<noteq> Some typeCollection"
    using that handleEvent_split[OF _ _ assms, of "''remove''" data]
    by (simp add: receive_def handleRemoveEvent_def bind_def unprocessed_def)
  from c ad re unprocessed_frame[of s a r event data] show ?thesis by simp
qed

text \<open>
  A state with one cached collection \<open>x.c\<close> holding the number 1 and one cached model
  \<open>x.m\<close>.
\<close>

definition two_items :: client where
  "two_items = client0\<lparr>heap := (\<lambda>_. ci0)
       (0 := ci0\<lparr>rid := ''x.c'', ci_type := Some typeCollection,
                item := Some (CollectionItem [VPrim (PNum 1)]), subscribed := True\<rparr>,
        1 := ci0\<lparr>rid := ''x.m'', ci_type := Some typeModel,
                item := Some (ModelItem [(''n'', VPrim (PNum 1))]), subscribed := True\<rparr>),
     cache := [(''x.c'', 0), (''x.m'', 1)], nextAddr := 2\<rparr>"

definition some_change :: payload where
  "some_change = \<lparr>ev_values = [(''n'', JPrim (PNum 2))], ev_value = JPrim PNull, ev_idx = 0,
     ev_res = no_resources\<rparr>"

theorem wrong_type_event_unprocessed_witness:
  "map_of (cache two_items) ''x.c'' = Some 0
   \<and> ci_type (heap two_items 0) \<noteq> Some typeModel
   \<and> receive (MEvent ''x.c.change'' (Some some_change)) two_items =
       Ok () (two_items\<lparr>emitted :=
         [EmitResource (VRes 0 ''x.c'') ''resclient.resource.x.c.change'' (DRaw (Some some_change))]\<rparr>)
   \<and> map_of (cache two_items) ''x.m'' = Some 1
   \<and> ci_type (heap two_items 1) \<noteq> Some typeCollection
   \<and> receive (MEvent ''x.m.remove'' (Some some_change)) two_items =
       Ok () (two_items\<lparr>emitted :=
         [EmitResource (VRes 1 ''x.m'') ''resclient.resource.x.m.remove'' (DRaw (Some some_change))]\<rparr>)"
proof -
  have c: "map_of (cache two_items) ''x.c'' = Some 0" and m: "map_of (cache two_items) ''x.m'' = Some 1"
    by (simp_all add: two_items_def client0_def)
  have tc: "ci_type (heap two_items 0) \<noteq> Some typeModel"
    and tm: "ci_type (heap two_items 1) \<noteq> Some typeCollection"
    by (simp_all add: two_items_def client0_def ci0_def)
  have u0: "unprocessed two_items 0 ''x.c'' ''change'' (Some some_change) = two_items\<lparr>emitted :=
         [EmitResource (VRes 0 ''x.c'') ''resclient.resource.x.c.change'' (DRaw (Some some_change))]\<rparr>"
    by (simp add: unprocessed_def emit_ev_def itemval_def resource_event_def two_items_def
        client0_def ci0_def)
  have u1: "unprocessed two_items 1 ''x.m'' ''remove'' (Some some_change) = two_items\<lparr>emitted :=
         [EmitResource (VRes 1 ''x.m'') ''resclient.resource.x.m.remove'' (DRaw (Some some_change))]\<rparr>"
    by (simp add: unprocessed_def emit_ev_def itemval_def resource_event_def two_items_def
        client0_def ci0_def)
  from wrong_type_event_unprocessed[OF c, of "Some some_change"] tc u0
  have r0: "receive (MEvent ''x.c.change'' (Some some_change)) two_items =
       Ok () (two_items\<lparr>emitted :=
         [EmitResource (VRes 0 ''x.c'') ''resclient.resource.x.c.change'' (DRaw (Some some_change))]\<rparr>)"
    by simp
  have r1: "receive (MEvent ''x.m.remove'' (Some some_change)) two_items =
       Ok () (two_items\<lparr>emitted :=
         [EmitResource (VRes 1 ''x.m'') ''resclient.resource.x.m.remove'' (DRaw (Some some_change))]\<rparr>)"
    using handleEvent_split[of "''remove''" two_items "''x.m''" 1 "Some some_change"] m tm u1
    by (simp add: receive_def handleRemoveEvent_def bind_def unprocessed_def)
  from c m tc tm r0 r1 show ?thesis by simp
qed

subsection \<open>Protocol violations\<close>





lemma heap_removeStale [simp]: "heap (removeStale s k) = heap s"
  by (simp add: removeStale_def split: option.splits)

lemma cache_removeStale [simp]: "cache (removeStale s k) = cache s"
  by (simp add: removeStale_def split: option.splits)





text \<open>
  Where the claim fails. The change event for the model \<open>x.m\<close> brings the cached
  collection \<open>x.c\<close> as a model: the turn ends without an exception, with one line on the
  console. The change event with the unsupported value \<open>{}\<close> for the collection \<open>x.c\<close>
  ends without an exception too, as an unprocessed event.
\<close>


section \<open>A failed subscription\<close>




lemma cache_rs [simp]: "returned (removeStale s k) = returned s" "settled (removeStale s k) = settled s"
  "emitted (removeStale s k) = emitted s" "requests (removeStale s k) = requests s"
  by (simp_all add: removeStale_def split: option.splits)


lemma removeStale_fields [simp]:
  "connected (removeStale s k) = connected s" "ws (removeStale s k) = ws s"
  "callId (removeStale s k) = callId s" "reqId (removeStale s k) = reqId s"
  "nextAddr (removeStale s k) = nextAddr s" "console (removeStale s k) = console s"
  "sent (removeStale s k) = sent s" "waiting (removeStale s k) = waiting s"
  "timers (removeStale s k) = timers s" "connectCallback (removeStale s k) = connectCallback s"
  "connectPromise (removeStale s k) = connectPromise s" "tryConnect (removeStale s k) = tryConnect s"
  "namespace (removeStale s k) = namespace s"
  by (simp_all add: removeStale_def split: option.splits)





section \<open>Outstanding requests\<close>

text \<open>
  The table of stored requests, the log of the settled promises and the next request
  id. Only \<open>_sendNow\<close> and
  \<open>_receive\<close> write them; the cache, its reference counts, the events and the timers
  leave them as they are.
\<close>

definition pend :: "client \<Rightarrow> (nat \<times> request) list \<times> (nat \<times> outcome) list \<times> nat" where
  "pend s = (requests s, settled s, reqId s)"

definition keeps :: "'a result \<Rightarrow> client \<Rightarrow> bool" where
  "keeps m s = (pend (state_of m) = pend s)"

lemma pend_fields [simp]:
  "pend (s\<lparr>heap := h\<rparr>) = pend s" "pend (s\<lparr>cache := c\<rparr>) = pend s"
  "pend (s\<lparr>stale := sl\<rparr>) = pend s" "pend (s\<lparr>timers := ti\<rparr>) = pend s"
  "pend (s\<lparr>emitted := em\<rparr>) = pend s" "pend (s\<lparr>console := co\<rparr>) = pend s"
  "pend (s\<lparr>nextAddr := na\<rparr>) = pend s" "pend (s\<lparr>returned := re\<rparr>) = pend s"
  "pend (s\<lparr>tryConnect := b\<rparr>) = pend s" "pend (s\<lparr>connected := b\<rparr>) = pend s"
  "pend (s\<lparr>ws := b\<rparr>) = pend s" "pend (s\<lparr>connectPromise := b\<rparr>) = pend s"
  "pend (s\<lparr>connectCallback := b\<rparr>) = pend s" "pend (s\<lparr>waiting := w\<rparr>) = pend s"
  "pend (s\<lparr>callId := n\<rparr>) = pend s"
  by (simp_all add: pend_def)

lemma pend_basic [simp]:
  "pend (upd a f s) = pend s" "pend (addStale s k) = pend s" "pend (removeStale s k) = pend s"
  "pend (setStale s k) = pend s" "pend (emit_ev e s) = pend s" "pend (snd (alloc r s)) = pend s"
  "pend (ret n out s) = pend s"
  by (simp_all add: upd_def addStale_def removeStale_def setStale_def emit_ev_def alloc_def
      ret_def Let_def split: option.splits)

lemma keeps_Ok [simp]: "keeps (Ok x s') s = (pend s' = pend s)"
  by (simp add: keeps_def state_of_def)

lemma keeps_Throw [simp]: "keeps (Throw e s') s = (pend s' = pend s)"
  by (simp add: keeps_def state_of_def)

lemma keeps_bind:
  assumes "keeps m s" and "\<And>x s1. m = Ok x s1 \<Longrightarrow> keeps (f x s1) s1"
  shows "keeps (bind m f) s"
proof (cases m)
  case (Ok x s1)
  with assms(1) have "pend s1 = pend s" by simp
  with assms(2)[OF Ok] Ok show ?thesis by (simp add: bind_def keeps_def)
next
  case (Throw e s1)
  with assms(1) show ?thesis by (simp add: bind_def)
qed

lemma keeps_trans: "keeps m s1 \<Longrightarrow> pend s1 = pend s \<Longrightarrow> keeps m s"
  by (simp add: keeps_def)

lemma pend_deleteRef_loop [simp]: "pend (deleteRef_loop vs s) = pend s"
  by (induction vs arbitrary: s) (auto split: option.splits)

lemma pend_deleteRef [simp]: "pend (deleteRef s a) = pend s"
  by (simp add: deleteRef_def Let_def)

lemma pend_tryDelete_loop [simp]: "pend (tryDelete_loop refs s) = pend s"
  by (induction refs arbitrary: s) auto

lemma keeps_tryDelete [simp]: "keeps (tryDelete s a) s"
  by (simp add: tryDelete_def split: sum.splits)

lemma keeps_tryDelete' : "pend s1 = pend s \<Longrightarrow> keeps (tryDelete s1 a) s"
  using keeps_tryDelete[of s1 a] by (simp add: keeps_def)

lemma pend_createItems_loop [simp]: "pend (snd (snd (createItems_loop l ty s))) = pend s"
proof (induction l arbitrary: s)
  case Nil
  then show ?case by simp
next
  case (Cons x l)
  obtain k d where x: "x = (k, d)" by (cases x)
  show ?case
    by (simp add: x Let_def split_beta Cons.IH split: option.splits)
qed

lemma pend_createItems:
  "createItems refs ty s = (sy, re, s1) \<Longrightarrow> pend s1 = pend s"
  using pend_createItems_loop[of "the refs" ty s]
  by (cases refs) (auto simp: createItems_def)

lemma keeps_prepareModel [simp]: "keeps (prepareModel kvs s) s"
proof (induction kvs arbitrary: s)
  case Nil
  then show ?case by simp
next
  case (Cons x kvs)
  obtain k v where x: "x = (k, v)" by (cases x)
  show ?case
  proof (cases "ref_rid v")
    case None
    then show ?thesis using Cons.IH[of s] by (auto simp: x intro!: keeps_bind)
  next
    case (Some r)
    show ?thesis
    proof (cases "map_of (cache s) r")
      case None
      with Some show ?thesis by (simp add: x)
    next
      case (Some a)
      have "keeps (prepareModel kvs (upd a (addIndirect 1) s)) s"
        by (rule keeps_trans[OF Cons.IH]) simp
      with Some \<open>ref_rid v = Some r\<close> show ?thesis by (auto simp: x intro!: keeps_bind)
    qed
  qed
qed

lemma keeps_prepareCollection [simp]: "keeps (prepareCollection vs s) s"
proof (induction vs arbitrary: s)
  case Nil
  then show ?case by simp
next
  case (Cons v vs)
  show ?case
  proof (cases "ref_rid v")
    case None
    then show ?thesis using Cons.IH[of s] by (auto intro!: keeps_bind)
  next
    case (Some r)
    show ?thesis
    proof (cases "map_of (cache s) r")
      case None
      with Some show ?thesis by simp
    next
      case (Some a)
      have "keeps (prepareCollection vs (upd a (addIndirect 1) s)) s"
        by (rule keeps_trans[OF Cons.IH]) simp
      with Some \<open>ref_rid v = Some r\<close> show ?thesis by (auto intro!: keeps_bind)
    qed
  qed
qed

lemma keeps_init [simp]:
  "keeps (initModel d s) s" "keeps (initCollection c s) s" "keeps (initError e s) s"
  by (auto simp: initModel_def initCollection_def initError_def intro!: keeps_bind)

lemma keeps_initItems:
  assumes "\<And>d s. keeps (prep d s) s"
  shows "keeps (initItems l prep s) s"
proof (induction l arbitrary: s)
  case Nil
  then show ?case by simp
next
  case (Cons x l)
  obtain k d where x: "x = (k, d)" by (cases x)
  have "keeps (initItems l prep (upd a (\<lambda>c. c\<lparr>item := Some it\<rparr>) s1)) s1" for a it s1
    by (rule keeps_trans[OF Cons.IH]) simp
  then show ?case
    by (auto simp: x split: option.splits intro!: keeps_bind assms)
qed

lemma keeps_syncItems:
  assumes "\<And>a d s. keeps (sync a d s) s"
  shows "keeps (syncItems l sync s) s"
proof (induction l arbitrary: s)
  case Nil
  then show ?case by simp
next
  case (Cons x l)
  obtain k d where x: "x = (k, d)" by (cases x)
  show ?case
    by (auto simp: x split: option.splits intro!: keeps_bind assms Cons.IH)
qed

lemma keeps_rm_loop [simp]: "keeps (rm_loop rm s) s"
proof (induction rm arbitrary: s)
  case Nil
  then show ?case by simp
next
  case (Cons x rm)
  obtain k r where x: "x = (k, r)" by (cases x)
  have 1: "keeps (rm_loop rm (upd a (removeIndirect r) s)) s" for a
    by (rule keeps_trans[OF Cons.IH]) simp
  have 2: "keeps (bind (tryDelete (upd a (removeIndirect r) s) a) (\<lambda>_ s1. rm_loop rm s1)) s" for a
    by (rule keeps_bind[OF keeps_tryDelete']) (simp_all add: Cons.IH)
  show ?case using 1 2 by (auto simp: x split: option.splits)
qed

lemma keeps_handleChangeEvent_with:
  assumes "\<And>r s. keeps (cr r s) s"
  shows "keeps (handleChangeEvent_with cr s a event data) s"
proof (cases "ci_type (heap s a) \<noteq> Some typeModel")
  case True
  then show ?thesis by (simp add: handleChangeEvent_with_def)
next
  case False
  have "keeps (case data of
             None \<Rightarrow> Throw TypeError s1
           | Some d \<Rightarrow>
               (case item (heap s1 a) of
                  Some (ModelItem props) \<Rightarrow>
                    (case change_loop s1 props (ev_values d) [] of
                       Inl e \<Rightarrow> Throw e s1
                     | Inr (vals, rm) \<Rightarrow>
                         bind (rm_loop rm s1) (\<lambda>_ s2.
                           (case model_update props vals of
                              (props', changed) \<Rightarrow>
                                Ok True
                                  ((if changed \<noteq> [] then
                                      emit_ev (EmitResource (itemval s2 a)
                                        (resource_event s2 (rid (heap s2 a)) event) (DChanged changed))
                                    else id)
                                   (upd a (\<lambda>c. c\<lparr>item := Some (ModelItem props')\<rparr>) s2)))))
                | _ \<Rightarrow> Throw TypeError s1)) s1" for s1
    by (auto split: option.splits item.splits sum.splits prod.splits intro!: keeps_bind)
  with False show ?thesis
    by (auto simp: handleChangeEvent_with_def intro!: keeps_bind assms)
qed

lemma keeps_handleRemoveEvent [simp]: "keeps (handleRemoveEvent s a event data) s"
  by (auto simp: handleRemoveEvent_def Let_def
      split: option.splits item.splits prod.splits val.splits
      intro!: keeps_bind keeps_tryDelete')

lemma keeps_handleAddEvent_with:
  assumes "\<And>r s. keeps (cr r s) s"
  shows "keeps (handleAddEvent_with cr s a event data) s"
  by (auto simp: handleAddEvent_with_def split: option.splits item.splits
      intro!: keeps_bind assms)

lemma keeps_cacheNothing [simp]: "keeps (cacheNothing r s) s"
  by (simp add: cacheNothing_def)

lemma keeps_syncModel [simp]: "keeps (syncModel a d s) s"
  by (auto simp: syncModel_def intro!: keeps_bind keeps_handleChangeEvent_with)

lemma keeps_run_calls [simp]: "keeps (run_calls cs a d s) s"
proof (induction cs arbitrary: s)
  case Nil
  then show ?case by simp
next
  case (Cons c cs)
  show ?case
    by (cases c) (auto intro!: keeps_bind keeps_handleAddEvent_with Cons.IH)
qed

lemma keeps_syncCollection [simp]: "keeps (syncCollection a d s) s"
  by (auto simp: syncCollection_def split: option.splits item.splits sum.splits)

lemma keeps_syncError [simp]: "keeps (syncError a d s) s"
  by (simp add: syncError_def)

lemma keeps_cacheResources [simp]: "keeps (cacheResources res s) s"
proof (cases res)
  case None
  then show ?thesis by (simp add: cacheResources_def)
next
  case (Some r)
  obtain syncM restM s1 where 1: "createItems (models r) typeModel s = (syncM, restM, s1)"
    by (cases "createItems (models r) typeModel s") auto
  obtain syncC restC s2 where 2: "createItems (collections r) typeCollection s1 = (syncC, restC, s2)"
    by (cases "createItems (collections r) typeCollection s1") auto
  obtain syncE restE s3 where 3: "createItems (errors r) typeError s2 = (syncE, restE, s3)"
    by (cases "createItems (errors r) typeError s2") auto
  have p: "pend s3 = pend s"
    using pend_createItems[OF 1] pend_createItems[OF 2] pend_createItems[OF 3] by simp
  have "keeps (bind (initItems restM initModel s3) (\<lambda>_ s4.
             bind (initItems restC initCollection s4) (\<lambda>_ s5.
             bind (initItems restE initError s5) (\<lambda>_ s6.
             bind (syncItems syncM syncModel s6) (\<lambda>_ s7.
             bind (syncItems syncC syncCollection s7) (\<lambda>_ s8.
             syncItems syncE syncError s8)))))) s3"
    by (intro keeps_bind keeps_initItems keeps_syncItems) simp_all
  then show ?thesis
    using Some 1 2 3 p by (simp add: cacheResources_def keeps_def)
qed

lemma keeps_OkD: "keeps m s \<Longrightarrow> m = Ok x s1 \<Longrightarrow> pend s1 = pend s"
  by simp

lemma keeps_ThrowD: "keeps m s \<Longrightarrow> m = Throw e s1 \<Longrightarrow> pend s1 = pend s"
  by simp

lemma keeps_cases:
  assumes "keeps m s"
  shows "pend (case m of Ok x s1 \<Rightarrow> ret n (f x) s1 | Throw e s1 \<Rightarrow> ret n (g e) s1) = pend s"
  using assms by (cases m) simp_all

lemma pend_subscribe_failed [simp]: "pend (subscribe_failed n a throwError err s) = pend s"
proof -
  have k: "keeps (handleFailedSubscribe s a) s"
    unfolding handleFailedSubscribe_def by (rule keeps_tryDelete') simp
  show ?thesis
    using k by (cases "handleFailedSubscribe s a") (simp_all add: subscribe_failed_def)
qed

lemma pend_on_reject [simp]: "pend (on_reject n k err s) = pend s"
proof (cases k)
  case (KUnsubscribe a)
  have "keeps (tryDelete s a) s" by simp
  then show ?thesis using KUnsubscribe
    by (cases "tryDelete s a") (simp_all add: on_reject_def)
qed (simp_all add: on_reject_def)

lemma pend_on_resolve [simp]: "pend (on_resolve n k res s) = pend s"
proof (cases k)
  case KPlain
  then show ?thesis by (simp add: on_resolve_def)
next
  case KNew
  have "keeps (cacheResources (map_option res_data res) s) s" by simp
  then show ?thesis using KNew
    by (cases "cacheResources (map_option res_data res) s")
       (simp_all add: on_resolve_def split: option.splits)
next
  case (KSubscribe a throwError)
  have "keeps (cacheResources (map_option res_data res) s) s" by simp
  then show ?thesis using KSubscribe
    by (cases "cacheResources (map_option res_data res) s") (simp_all add: on_resolve_def)
next
  case (KUnsubscribe a)
  have "keeps (tryDelete (upd a (setSubscribed False) s) a) s"
    by (rule keeps_tryDelete') simp
  then show ?thesis using KUnsubscribe
    by (cases "tryDelete (upd a (setSubscribed False) s) a") (simp_all add: on_resolve_def)
qed

lemma keeps_onclose_loop [simp]: "keeps (onclose_loop rs s) s"
proof (induction rs arbitrary: s)
  case Nil
  then show ?case by simp
next
  case (Cons r rs)
  have "keeps (bind (tryDelete (addStale (upd a (setSubscribed False) s) r) a)
              (\<lambda>_ s1. onclose_loop rs s1)) s" for a
    by (rule keeps_bind[OF keeps_tryDelete']) (simp_all add: Cons.IH)
  then show ?case using Cons.IH[of s] by (auto split: option.splits)
qed

lemma keeps_handleOnclose [simp]: "keeps (handleOnclose s) s"
proof -
  have 1: "keeps (onclose_loop rs (s\<lparr>connectPromise := False, ws := False, connected := False\<rparr>)) s"
    for rs
    by (rule keeps_trans[OF keeps_onclose_loop]) simp
  show ?thesis
    unfolding handleOnclose_def
    by (intro keeps_bind) (auto simp: Let_def intro!: keeps_bind 1)
qed

lemma pend_reject_waiting [simp]: "pend (reject_waiting w code s) = pend s"
  by (induction w arbitrary: s) auto

lemma pend_connectReject [simp]: "pend (connectReject code s) = pend s"
  by (simp add: connectReject_def Let_def)

lemma pend_disconnect [simp]: "pend (disconnect s) = pend s"
  by (simp add: disconnect_def Let_def)

text \<open>
  Claim C6, as the code has it. The response that carries the id of a stored request
  settles the promise of the request, once (resolved for a result, rejected for an
  error), and removes the request from the table: no later response finds it. The close
  of the transport and \<open>disconnect()\<close> leave the table and the log of settled promises as
  they are: the promise of a request that is outstanding then is not settled.
\<close>

theorem requests_settle:
  "(map_of (requests s) n = Some req \<and> \<not> req_done req \<longrightarrow>
      (\<exists>s1. receive (MResult n res) s = Ok () s1 \<and> requests s1 = AList.delete n (requests s)
         \<and> map_of (requests s1) n = None \<and> settled s1 = settled s @ [(n, Resolved)])
    \<and> (\<exists>s1. receive (MError n code) s = Ok () s1 \<and> requests s1 = AList.delete n (requests s)
         \<and> map_of (requests s1) n = None \<and> settled s1 = settled s @ [(n, RejectedWith code)]))
   \<and> requests (state_of (handleOnclose s)) = requests s
   \<and> settled (state_of (handleOnclose s)) = settled s
   \<and> requests (disconnect s) = requests s
   \<and> settled (disconnect s) = settled s"
proof (intro conjI impI)
  assume a: "map_of (requests s) n = Some req \<and> \<not> req_done req"
  define t where "t = s\<lparr>requests := AList.delete n (requests s)\<rparr>"
  define s1 where "s1 = handleSuccessResponse n req res t"
  define s2 where "s2 = handleErrorResponse n req code t"
  have p1: "pend s1 = (AList.delete n (requests s), settled s @ [(n, Resolved)], reqId s)"
    using a pend_on_resolve[of "req_call req" "req_cont req" res "t\<lparr>settled := settled t @ [(n, Resolved)]\<rparr>"]
    by (simp add: s1_def handleSuccessResponse_def) (simp add: pend_def t_def)
  have p2: "pend s2 = (AList.delete n (requests s), settled s @ [(n, RejectedWith code)], reqId s)"
    using a pend_on_reject[of "req_call req" "req_cont req" "RejectedWith code"
        "(emit_ev (EmitClient ''error'' (DError code)) t)\<lparr>settled :=
           settled (emit_ev (EmitClient ''error'' (DError code)) t) @ [(n, RejectedWith code)]\<rparr>"]
    by (simp add: s2_def handleErrorResponse_def Let_def) (simp add: pend_def t_def emit_ev_def)
  have d: "map_of (AList.delete n (requests s)) n = None"
    by (simp add: delete_conv')
  have r1: "receive (MResult n res) s = Ok () s1"
    using a by (simp add: receive_def s1_def t_def)
  have r2: "receive (MError n code) s = Ok () s2"
    using a by (simp add: receive_def s2_def t_def)
  show "\<exists>s1. receive (MResult n res) s = Ok () s1 \<and> requests s1 = AList.delete n (requests s)
         \<and> map_of (requests s1) n = None \<and> settled s1 = settled s @ [(n, Resolved)]"
    using r1 p1 d by (intro exI[of _ s1]) (simp add: pend_def)
  show "\<exists>s1. receive (MError n code) s = Ok () s1 \<and> requests s1 = AList.delete n (requests s)
         \<and> map_of (requests s1) n = None \<and> settled s1 = settled s @ [(n, RejectedWith code)]"
    using r2 p2 d by (intro exI[of _ s2]) (simp add: pend_def)
next
  have "pend (state_of (handleOnclose s)) = pend s"
    using keeps_handleOnclose[of s] by (simp add: keeps_def)
  then show "requests (state_of (handleOnclose s)) = requests s"
    and "settled (state_of (handleOnclose s)) = settled s"
    by (simp_all add: pend_def)
next
  have "pend (disconnect s) = pend s" by simp
  then show "requests (disconnect s) = requests s" and "settled (disconnect s) = settled s"
    by (simp_all add: pend_def)
qed

text \<open>A connected client with one outstanding call.\<close>

definition one_call :: request where
  "one_call = \<lparr>req_method = ''call.x.a.m'', req_params = None, req_cont = KPlain, req_call = 0,
     req_done = False\<rparr>"

definition calling :: client where
  "calling = client0\<lparr>callId := 1, reqId := 2, requests := [(1, one_call)],
     sent := [(1, ''call.x.a.m'', None)]\<rparr>"

theorem requests_settle_witness:
  "map_of (requests calling) 1 = Some one_call \<and> \<not> req_done one_call
   \<and> (\<exists>s1. receive (MResult 1 None) calling = Ok () s1 \<and> requests s1 = []
        \<and> settled s1 = [(1, Resolved)])
   \<and> (\<exists>s1. receive (MError 1 ''system.timeout'') calling = Ok () s1 \<and> requests s1 = []
        \<and> settled s1 = [(1, RejectedWith ''system.timeout'')])
   \<and> requests (state_of (handleOnclose calling)) = [(1, one_call)]
   \<and> settled (state_of (handleOnclose calling)) = []"
proof -
  have a: "map_of (requests calling) 1 = Some one_call" "\<not> req_done one_call"
    by (simp_all add: calling_def one_call_def)
  have rq: "requests calling = [(1, one_call)]" "settled calling = []"
    by (simp_all add: calling_def client0_def)
  have d: "AList.delete 1 (requests calling) = []" by (simp add: rq)
  from requests_settle[of calling 1 one_call None "''system.timeout''"] a
  have "(\<exists>s1. receive (MResult 1 None) calling = Ok () s1 \<and> requests s1 = []
        \<and> settled s1 = [(1, Resolved)])
   \<and> (\<exists>s1. receive (MError 1 ''system.timeout'') calling = Ok () s1 \<and> requests s1 = []
        \<and> settled s1 = [(1, RejectedWith ''system.timeout'')])
   \<and> requests (state_of (handleOnclose calling)) = [(1, one_call)]
   \<and> settled (state_of (handleOnclose calling)) = []"
    unfolding d rq by auto
  with a show ?thesis by simp
qed

lemma calling_reached: "run [Call ''x.a'' ''m''] client0 = calling"
  by (simp add: run_def step_def call_def send_def sendNow_def state_of_def Let_def
      client0_def calling_def one_call_def)

text \<open>
  Where the claim fails: \<open>call('x.a', 'm')\<close> on a connected client, then the transport
  closes; and the same call, then \<open>disconnect()\<close>, then the close. The request is still
  stored and its promise was neither resolved nor rejected.
\<close>

theorem outstanding_request_abandoned:
  "requests (run [Call ''x.a'' ''m'', Close] client0) = [(1, one_call)]
   \<and> settled (run [Call ''x.a'' ''m'', Close] client0) = []
   \<and> returned (run [Call ''x.a'' ''m'', Close] client0) = []
   \<and> requests (run [Call ''x.a'' ''m'', Disconnect, Close] client0) = [(1, one_call)]
   \<and> settled (run [Call ''x.a'' ''m'', Disconnect, Close] client0) = []
   \<and> returned (run [Call ''x.a'' ''m'', Disconnect, Close] client0) = []"
  by code_simp

section \<open>References in a change event\<close>

















lemma upd_removeIndirect_0 [simp]: "upd a (removeIndirect 0) s = s"
  by (simp add: upd_def removeIndirect_def)









end
